theory Spec2Isabelle
  imports Complex_Main "HOL-Library.Word"
begin

section \<open>Python floats\<close>

text \<open>
  The harness of \<^verbatim>\<open>run.py\<close> computes with Python floats (IEEE binary64) and Python
  integers. A float is a finite value, an infinity or a NaN. The sign of a zero is not
  kept: the code never divides by a zero (Python raises instead) and compares with
  \<^verbatim>\<open>==\<close>, \<^verbatim>\<open>>\<close> and their kin, which do not see it.
\<close>

datatype pyfloat = Fin real | PInf | NInf | NaN

text \<open>
  Arithmetic rounds. The rounding function \<open>rnd\<close> (to the nearest float, with unbounded
  exponent) and the largest finite float \<open>fmax\<close> are parameters of the model;
  \<open>rounding_ok\<close> lists what is used of them, all of it true of binary64 with
  round-to-nearest: rounding is monotone; integers up to \<open>2^53\<close>, the powers of two from
  \<open>2^-1074\<close> to \<open>2^1023\<close> and their negatives are floats; the relative error is at most
  \<open>2^-53\<close> away from the subnormal range; the smallest positive float is \<open>2^-1074\<close>.
\<close>

record float_format =
  rnd :: "real \<Rightarrow> real"
  fmax :: real

definition rounding_ok :: "float_format \<Rightarrow> bool" where
  "rounding_ok F \<longleftrightarrow>
     (\<forall>x y. x \<le> y \<longrightarrow> rnd F x \<le> rnd F y) \<and>
     (\<forall>n::int. \<bar>n\<bar> \<le> 2 ^ 53 \<longrightarrow> rnd F (of_int n) = of_int n) \<and>
     (\<forall>k::nat. k \<le> 1023 \<longrightarrow> rnd F (2 ^ k) = 2 ^ k \<and> rnd F (- (2 ^ k)) = - (2 ^ k)) \<and>
     (\<forall>k::nat. k \<le> 1074 \<longrightarrow> rnd F (1 / 2 ^ k) = 1 / 2 ^ k \<and> rnd F (- (1 / 2 ^ k)) = - (1 / 2 ^ k)) \<and>
     (\<forall>x. 1 / 2 ^ 1022 \<le> \<bar>x\<bar> \<longrightarrow> \<bar>rnd F x - x\<bar> \<le> \<bar>x\<bar> / 2 ^ 53) \<and>
     (\<forall>x. rnd F x = 0 \<or> 1 / 2 ^ 1074 \<le> \<bar>rnd F x\<bar>) \<and>
     2 ^ 1023 \<le> fmax F"

text \<open>
  Python's exceptions are values. \<open>ComplexValue\<close> is not an exception: a negative
  float to the power 0.5 is a complex number in Python 3, which this model does not
  follow; \<open>fpow_half_nonneg\<close> and \<open>variance_nonneg\<close> show the harness never gets there.
\<close>

datatype error = ZeroDivisionError | OverflowError | KeyError string | ComplexValue

text \<open>The float nearest to an exact result; beyond \<open>fmax\<close> it is an infinity.\<close>

definition fl :: "float_format \<Rightarrow> real \<Rightarrow> pyfloat" where
  "fl F x = (if rnd F x > fmax F then PInf else if rnd F x < - fmax F then NInf else Fin (rnd F x))"

fun fneg :: "pyfloat \<Rightarrow> pyfloat" where
  "fneg (Fin a) = Fin (- a)"
| "fneg PInf = NInf"
| "fneg NInf = PInf"
| "fneg NaN = NaN"

fun fadd :: "float_format \<Rightarrow> pyfloat \<Rightarrow> pyfloat \<Rightarrow> pyfloat" where
  "fadd F (Fin a) (Fin b) = fl F (a + b)"
| "fadd F NaN y = NaN"
| "fadd F x NaN = NaN"
| "fadd F PInf NInf = NaN"
| "fadd F NInf PInf = NaN"
| "fadd F PInf y = PInf"
| "fadd F NInf y = NInf"
| "fadd F x PInf = PInf"
| "fadd F x NInf = NInf"

definition fsub :: "float_format \<Rightarrow> pyfloat \<Rightarrow> pyfloat \<Rightarrow> pyfloat" where
  "fsub F x y = fadd F x (fneg y)"

text \<open>The sign of a float that is not a NaN: -1, 0 or 1.\<close>

fun fsgn :: "pyfloat \<Rightarrow> int" where
  "fsgn (Fin a) = (if a < 0 then - 1 else if a = 0 then 0 else 1)"
| "fsgn PInf = 1"
| "fsgn NInf = - 1"
| "fsgn NaN = 0"

definition inf_of_sign :: "int \<Rightarrow> pyfloat" where
  "inf_of_sign s = (if s = 0 then NaN else if s < 0 then NInf else PInf)"

fun fmul :: "float_format \<Rightarrow> pyfloat \<Rightarrow> pyfloat \<Rightarrow> pyfloat" where
  "fmul F (Fin a) (Fin b) = fl F (a * b)"
| "fmul F NaN y = NaN"
| "fmul F x NaN = NaN"
| "fmul F x y = inf_of_sign (fsgn x * fsgn y)"

text \<open>
  \<^verbatim>\<open>a / b\<close>: Python tests the divisor first and raises on a zero, whatever the
  dividend; an overflowing quotient is an infinity, not an exception.
\<close>

fun fdiv :: "float_format \<Rightarrow> pyfloat \<Rightarrow> pyfloat \<Rightarrow> error + pyfloat" where
  "fdiv F x (Fin b) =
     (if b = 0 then Inl ZeroDivisionError
      else case x of
        Fin a \<Rightarrow> Inr (fl F (a / b))
      | NaN \<Rightarrow> Inr NaN
      | _ \<Rightarrow> Inr (inf_of_sign (fsgn x * fsgn (Fin b))))"
| "fdiv F x NaN = Inr NaN"
| "fdiv F (Fin a) y = Inr (Fin 0)"
| "fdiv F x y = Inr NaN"

text \<open>
  \<^verbatim>\<open>x ** 2\<close> (\<^verbatim>\<open>float_pow\<close>): an overflow of a finite base raises \<^verbatim>\<open>OverflowError\<close>,
  an underflow is a zero.
\<close>

fun fpow2 :: "float_format \<Rightarrow> pyfloat \<Rightarrow> error + pyfloat" where
  "fpow2 F (Fin a) = (if rnd F (a\<^sup>2) > fmax F then Inl OverflowError else Inr (Fin (rnd F (a\<^sup>2))))"
| "fpow2 F NaN = Inr NaN"
| "fpow2 F x = Inr PInf"

text \<open>\<^verbatim>\<open>x ** 0.5\<close>, taken as the correctly rounded square root on a finite base.\<close>

fun fpow_half :: "float_format \<Rightarrow> pyfloat \<Rightarrow> error + pyfloat" where
  "fpow_half F (Fin a) = (if a < 0 then Inl ComplexValue else Inr (Fin (rnd F (sqrt a))))"
| "fpow_half F NaN = Inr NaN"
| "fpow_half F x = Inr PInf"

text \<open>Comparisons; every comparison with a NaN is false.\<close>

fun fgt :: "pyfloat \<Rightarrow> pyfloat \<Rightarrow> bool" where
  "fgt NaN y = False"
| "fgt x NaN = False"
| "fgt (Fin a) (Fin b) = (a > b)"
| "fgt PInf y = (y \<noteq> PInf)"
| "fgt x NInf = (x \<noteq> NInf)"
| "fgt x y = False"

definition flt :: "pyfloat \<Rightarrow> pyfloat \<Rightarrow> bool" where
  "flt x y = fgt y x"

definition fge :: "pyfloat \<Rightarrow> pyfloat \<Rightarrow> bool" where
  "fge x y = (x \<noteq> NaN \<and> y \<noteq> NaN \<and> \<not> fgt y x)"

definition fle :: "pyfloat \<Rightarrow> pyfloat \<Rightarrow> bool" where
  "fle x y = fge y x"

text \<open>
  An integer operand of a float operation is converted first; Python raises
  \<^verbatim>\<open>OverflowError\<close> when the integer is beyond the float range.
\<close>

definition float_of_int :: "float_format \<Rightarrow> int \<Rightarrow> error + pyfloat" where
  "float_of_int F n =
     (if \<bar>rnd F (of_int n)\<bar> > fmax F then Inl OverflowError else Inr (Fin (rnd F (of_int n))))"

text \<open>A float literal of the source.\<close>

definition lit :: "float_format \<Rightarrow> real \<Rightarrow> pyfloat" where
  "lit F x = Fin (rnd F x)"

definition ebind :: "error + 'a \<Rightarrow> ('a \<Rightarrow> error + 'b) \<Rightarrow> error + 'b" where
  "ebind m f = (case m of Inl e \<Rightarrow> Inl e | Inr v \<Rightarrow> f v)"

fun emap :: "('a \<Rightarrow> error + 'b) \<Rightarrow> 'a list \<Rightarrow> error + 'b list" where
  "emap f [] = Inr []"
| "emap f (x # xs) =
     (case f x of
        Inl e \<Rightarrow> Inl e
      | Inr y \<Rightarrow> (case emap f xs of Inl e \<Rightarrow> Inl e | Inr ys \<Rightarrow> Inr (y # ys)))"

text \<open>
  \<^verbatim>\<open>sum(xs)\<close> starts from the integer 0 and adds from the left (the plain loop of
  CPython before 3.12; later versions carry an error-compensation term, which changes
  the last bits of a sum and nothing that is stated below about zeros and signs).
\<close>

definition fsum :: "float_format \<Rightarrow> pyfloat list \<Rightarrow> pyfloat" where
  "fsum F xs = foldl (fadd F) (Fin 0) xs"

section \<open>Return and statistics library\<close>

text \<open>\<^verbatim>\<open>returns\<close> (line 52): the comprehension over \<^verbatim>\<open>range(1, len(prices))\<close>.\<close>

definition returns :: "float_format \<Rightarrow> pyfloat list \<Rightarrow> error + pyfloat list" where
  "returns F prices =
     emap (\<lambda>i. ebind (fdiv F (prices ! i) (prices ! (i - 1))) (\<lambda>q. Inr (fsub F q (Fin 1))))
       [1 ..< length prices]"

text \<open>The squared deviations \<^verbatim>\<open>(x-mu)**2 for x in rets\<close>, in order, up to the first overflow.\<close>

definition sq_devs :: "float_format \<Rightarrow> pyfloat \<Rightarrow> pyfloat list \<Rightarrow> error + pyfloat list" where
  "sq_devs F mu xs = emap (\<lambda>x. fpow2 F (fsub F x mu)) xs"

text \<open>\<^verbatim>\<open>sharpe\<close> (lines 55-64).\<close>

definition sharpe :: "float_format \<Rightarrow> pyfloat list \<Rightarrow> error + pyfloat" where
  "sharpe F rets =
     (if rets = [] then Inr (Fin 0)
      else
        ebind (float_of_int F (int (length rets))) (\<lambda>n.
        ebind (fdiv F (fsum F rets) n) (\<lambda>mu.
        ebind (sq_devs F mu rets) (\<lambda>sq.
        ebind (float_of_int F (max 1 (int (length rets) - 1))) (\<lambda>d.
        ebind (fdiv F (fsum F sq) d) (\<lambda>var.
        ebind (fpow_half F var) (\<lambda>sd.
        if sd = Fin 0 then Inr (Fin 0)
        else ebind (fdiv F mu sd) (\<lambda>q. Inr (fmul F q (lit F (sqrt 252)))))))))))"

subsection \<open>The statistics as the specification words them\<close>

text \<open>
  Sample mean, sample variance (denominator n-1, or 1 when n = 1) and standard deviation,
  each computed with the float operations, and the ratio the specification describes.
\<close>

definition sample_mean :: "float_format \<Rightarrow> pyfloat list \<Rightarrow> error + pyfloat" where
  "sample_mean F xs = ebind (float_of_int F (int (length xs))) (fdiv F (fsum F xs))"

definition sample_variance :: "float_format \<Rightarrow> pyfloat list \<Rightarrow> error + pyfloat" where
  "sample_variance F xs =
     ebind (sample_mean F xs) (\<lambda>mu.
     ebind (sq_devs F mu xs) (\<lambda>sq.
     ebind (float_of_int F (if length xs = 1 then 1 else int (length xs) - 1)) (fdiv F (fsum F sq))))"

definition sample_stddev :: "float_format \<Rightarrow> pyfloat list \<Rightarrow> error + pyfloat" where
  "sample_stddev F xs = ebind (sample_variance F xs) (fpow_half F)"

definition sharpe_spec :: "float_format \<Rightarrow> pyfloat list \<Rightarrow> error + pyfloat" where
  "sharpe_spec F xs =
     (if xs = [] then Inr (Fin 0)
      else ebind (sample_stddev F xs) (\<lambda>sd.
        if sd = Fin 0 then Inr (Fin 0)
        else ebind (sample_mean F xs) (\<lambda>mu.
             ebind (fdiv F mu sd) (\<lambda>q. Inr (fmul F q (lit F (sqrt 252)))))))"

text \<open>
  When \<^verbatim>\<open>sharpe\<close> raises: the length is beyond the float range, or a squared deviation
  overflows.
\<close>

definition sharpe_overflows :: "float_format \<Rightarrow> pyfloat list \<Rightarrow> bool" where
  "sharpe_overflows F xs \<longleftrightarrow>
     xs \<noteq> [] \<and>
     (float_of_int F (int (length xs)) = Inl OverflowError \<or>
      (\<exists>mu. sample_mean F xs = Inr mu \<and> sq_devs F mu xs = Inl OverflowError))"

section \<open>Preregistered parameters\<close>

text \<open>The frozen dataclass \<^verbatim>\<open>Prereg\<close> (lines 32-40) and the instance \<^verbatim>\<open>Prereg()\<close>.\<close>

record Prereg =
  n_days :: int
  fee_bps :: pyfloat
  slippage_bps :: pyfloat
  entry_z :: pyfloat
  baseline_sharpe_min :: pyfloat
  delta_min :: pyfloat
  neg_sharpe_max :: pyfloat

definition Prereg_default :: "float_format \<Rightarrow> Prereg" where
  "Prereg_default F =
     \<lparr>n_days = 252, fee_bps = lit F 1.0, slippage_bps = lit F 2.0, entry_z = lit F 1.0,
      baseline_sharpe_min = lit F 0.50, delta_min = lit F 0.30, neg_sharpe_max = lit F 0.25\<rparr>"

section \<open>Random generator and price path\<close>

text \<open>
  \<^verbatim>\<open>random.Random\<close> is the standard library's generator, not code of the harness. It is
  a parameter: a type \<^typ>\<open>'g\<close> of generator states, the constructor from a seed, and
  the two methods the harness calls, each returning the advanced state.
\<close>

record 'g rng_ops =
  Random :: "int \<Rightarrow> 'g"
  gauss :: "'g \<Rightarrow> pyfloat \<Rightarrow> pyfloat \<Rightarrow> pyfloat \<times> 'g"
  shuffle :: "'g \<Rightarrow> string list \<Rightarrow> string list \<times> 'g"

text \<open>\<^verbatim>\<open>gen_prices\<close> (lines 42-50): \<^verbatim>\<open>range(n-1)\<close> is empty for \<^verbatim>\<open>n <= 1\<close>.\<close>

fun gen_prices_loop ::
  "float_format \<Rightarrow> 'g rng_ops \<Rightarrow> nat \<Rightarrow> 'g \<Rightarrow> pyfloat \<Rightarrow> pyfloat list \<Rightarrow> pyfloat list \<times> 'g" where
  "gen_prices_loop F E 0 rng p out = (out, rng)"
| "gen_prices_loop F E (Suc k) rng p out =
     (case gauss E rng (lit F 0.0004) (lit F 0.01) of
        (r, rng') \<Rightarrow>
          gen_prices_loop F E k rng' (fmul F p (fadd F (lit F 1.0) r))
            (out @ [fmul F p (fadd F (lit F 1.0) r)]))"

definition gen_prices :: "float_format \<Rightarrow> 'g rng_ops \<Rightarrow> 'g \<Rightarrow> int \<Rightarrow> pyfloat list \<times> 'g" where
  "gen_prices F E rng n = gen_prices_loop F E (nat (n - 1)) rng (lit F 100.0) [lit F 100.0]"

section \<open>Condition simulator\<close>

text \<open>
  The loop of \<^verbatim>\<open>backtest\<close> (lines 72-108). One \<open>day\<close> record per iteration keeps the
  position after the update, the cost charged and the appended P&L entry.
\<close>

record day =
  day_pos :: int
  day_cost :: pyfloat
  day_pnl :: pyfloat

record ConditionResult =
  final_equity :: pyfloat
  sharpe_ratio :: pyfloat
  n_trades_approx :: int

definition win :: int where
  "win = 20"

text \<open>The slice \<^verbatim>\<open>rets[start:i+1]\<close> with \<^verbatim>\<open>start = max(0, i-win)\<close> (lines 78-79).\<close>

definition window :: "'a list \<Rightarrow> nat \<Rightarrow> 'a list" where
  "window rets i =
     (let start = nat (max 0 (int i - win))
      in take (i + 1 - start) (drop start rets))"

text \<open>Lines 80-81: the window mean and the window variance (0.0 on a single point).\<close>

definition window_var :: "float_format \<Rightarrow> pyfloat \<Rightarrow> pyfloat list \<Rightarrow> error + pyfloat" where
  "window_var F mu w =
     (if length w > 1
      then ebind (sq_devs F mu w) (\<lambda>sq.
           ebind (float_of_int F (max 1 (int (length w) - 1))) (fdiv F (fsum F sq)))
      else Inr (lit F 0.0))"

text \<open>Lines 76-83: the rolling statistics and the z-score of day \<open>i\<close>.\<close>

definition zscore :: "float_format \<Rightarrow> pyfloat list \<Rightarrow> nat \<Rightarrow> error + pyfloat" where
  "zscore F rets i =
     (let r = rets ! i; w = window rets i in
      ebind (float_of_int F (int (length w))) (\<lambda>n.
      ebind (fdiv F (fsum F w) n) (\<lambda>mu.
      ebind (window_var F mu w) (\<lambda>var.
      ebind (if fgt var (Fin 0) then fpow_half F var else Inr (lit F (1 / 10 ^ 9))) (\<lambda>sd.
      fdiv F (fsub F r mu) sd)))))"

text \<open>Lines 85-97: the position update; an unmatched mode leaves \<^verbatim>\<open>new_pos = pos\<close>.\<close>

definition new_position :: "Prereg \<Rightarrow> string \<Rightarrow> int \<Rightarrow> pyfloat \<Rightarrow> int" where
  "new_position pr mode pos z =
     (if mode = ''baseline'' then
        (if fgt z (entry_z pr) then 1 else if flt z (fneg (entry_z pr)) then - 1 else 0)
      else if mode = ''ablation'' then 1
      else if mode = ''negative_control'' then 0
      else pos)"

text \<open>
  Lines 99-108: cost on trade days and the P&L entry. The position is -1, 0 or 1 and
  converts to a float exactly.
\<close>

definition day_step :: "float_format \<Rightarrow> Prereg \<Rightarrow> string \<Rightarrow> int \<Rightarrow> pyfloat \<Rightarrow> pyfloat \<Rightarrow> day" where
  "day_step F pr mode pos r z =
     (let new_pos = new_position pr mode pos z;
          traded = (new_pos \<noteq> pos);
          cost = (if traded then fmul F (fadd F (fee_bps pr) (slippage_bps pr)) (lit F (1 / 10 ^ 4))
                  else lit F 0.0)
      in \<lparr>day_pos = new_pos, day_cost = cost,
          day_pnl = fsub F (fmul F (Fin (of_int new_pos)) r) cost\<rparr>)"

fun backtest_loop ::
  "float_format \<Rightarrow> Prereg \<Rightarrow> string \<Rightarrow> pyfloat list \<Rightarrow> nat list \<Rightarrow> int \<Rightarrow> day list \<Rightarrow> error + day list" where
  "backtest_loop F pr mode rets [] pos acc = Inr acc"
| "backtest_loop F pr mode rets (i # is) pos acc =
     (case zscore F rets i of
        Inl e \<Rightarrow> Inl e
      | Inr z \<Rightarrow>
          backtest_loop F pr mode rets is (day_pos (day_step F pr mode pos (rets ! i) z))
            (acc @ [day_step F pr mode pos (rets ! i) z]))"

definition simulate :: "float_format \<Rightarrow> Prereg \<Rightarrow> string \<Rightarrow> pyfloat list \<Rightarrow> error + day list" where
  "simulate F pr mode rets = backtest_loop F pr mode rets [0 ..< length rets] 0 []"

text \<open>\<^verbatim>\<open>!=\<close> on floats: a NaN differs from everything, itself included.\<close>

definition fne :: "pyfloat \<Rightarrow> pyfloat \<Rightarrow> bool" where
  "fne x y = (x = NaN \<or> y = NaN \<or> x \<noteq> y)"

text \<open>Lines 110-113: compounding, the Sharpe ratio and the trade-count proxy.\<close>

definition summarize :: "float_format \<Rightarrow> pyfloat list \<Rightarrow> error + ConditionResult" where
  "summarize F pnl =
     ebind (sharpe F pnl) (\<lambda>s.
       Inr \<lparr>final_equity = foldl (\<lambda>eq x. fmul F eq (fadd F (lit F 1.0) x)) (lit F 1.0) pnl,
            sharpe_ratio = s,
            n_trades_approx =
              int (length (filter (\<lambda>i. fne (pnl ! i) (pnl ! (i - 1))) [1 ..< length pnl]))\<rparr>)"

text \<open>The body of \<^verbatim>\<open>backtest\<close> from line 72 on, given the return series of line 68.\<close>

definition backtest_rets :: "float_format \<Rightarrow> Prereg \<Rightarrow> string \<Rightarrow> pyfloat list \<Rightarrow> error + ConditionResult" where
  "backtest_rets F pr mode rets =
     ebind (simulate F pr mode rets) (\<lambda>days. summarize F (map day_pnl days))"

definition backtest ::
  "float_format \<Rightarrow> 'g rng_ops \<Rightarrow> Prereg \<Rightarrow> 'g \<Rightarrow> string \<Rightarrow> error + ConditionResult" where
  "backtest F E pr rng mode =
     ebind (returns F (fst (gen_prices F E rng (n_days pr)))) (backtest_rets F pr mode)"

text \<open>The day on which nothing happens, and the summary of a run of such days.\<close>

definition flat_day :: day where
  "flat_day = \<lparr>day_pos = 0, day_cost = Fin 0, day_pnl = Fin 0\<rparr>"

definition inert_result :: ConditionResult where
  "inert_result = \<lparr>final_equity = Fin 1, sharpe_ratio = Fin 0, n_trades_approx = 0\<rparr>"

section \<open>A sample float format and a sample generator\<close>

text \<open>
  A format that satisfies \<open>rounding_ok\<close>, for concrete evaluations: round to the nearest
  multiple of \<open>2^-1074\<close> (the spacing of the smallest binary64 floats), with the binary64
  range.
\<close>

definition grid_rnd :: "real \<Rightarrow> real \<Rightarrow> real" where
  "grid_rnd S x = of_int (round (x * S)) / S"

definition grid_format :: float_format where
  "grid_format = \<lparr>rnd = grid_rnd (2 ^ 1074), fmax = 2 ^ 1024 - 2 ^ 971\<rparr>"

text \<open>
  A small deterministic stand-in for \<^verbatim>\<open>random.Random\<close>: the state is a counter started
  at the seed, a draw is the mean plus a whole number (between -3 and 3) of standard
  deviations, and a shuffle is a rotation.
\<close>

definition counter_rng :: "float_format \<Rightarrow> int rng_ops" where
  "counter_rng F =
     \<lparr>Random = (\<lambda>seed. seed),
      gauss = (\<lambda>g mu sigma. (fadd F mu (fmul F sigma (Fin (of_int (g mod 7 - 3)))), g + 1)),
      shuffle = (\<lambda>g xs. (rotate (nat (g mod 3)) xs, g + 1))\<rparr>"


section \<open>Auxiliary predicates\<close>

text \<open>A float that is not negative; a NaN counts, since no comparison with it holds.\<close>

fun nonneg :: "pyfloat \<Rightarrow> bool" where
  "nonneg (Fin a) = (0 \<le> a)"
| "nonneg PInf = True"
| "nonneg NInf = False"
| "nonneg NaN = True"

text \<open>A finite float of magnitude at most \<open>B\<close>.\<close>

definition fin_le :: "real \<Rightarrow> pyfloat \<Rightarrow> bool" where
  "fin_le B x = (case x of Fin a \<Rightarrow> \<bar>a\<bar> \<le> B | _ \<Rightarrow> False)"

text \<open>A float that is not a nonzero value below the smallest positive float.\<close>

definition rounded :: "pyfloat \<Rightarrow> bool" where
  "rounded x = (case x of Fin a \<Rightarrow> a = 0 \<or> 1 / 2 ^ 1074 \<le> \<bar>a\<bar> | _ \<Rightarrow> True)"

text \<open>
  What is asked of the draws \<^verbatim>\<open>rng.gauss(0.0004, 0.01)\<close>: a finite float between -0.5
  and 1, from every generator state. The standard library's \<^verbatim>\<open>gauss\<close> returns
  \<^verbatim>\<open>mu + z*sigma\<close> with \<open>z\<close> the product of a cosine and
  \<^verbatim>\<open>sqrt(-2.0*log(1.0 - random()))\<close>; \<^verbatim>\<open>random()\<close> is a multiple of \<open>2^-53\<close> below 1, so
  \<open>z\<close> is below 8.58 in magnitude and a draw lies within 0.0004 +/- 0.0858.
\<close>

definition draws_ok :: "float_format \<Rightarrow> 'g rng_ops \<Rightarrow> bool" where
  "draws_ok F E \<longleftrightarrow>
     (\<forall>g. \<exists>a g'. gauss E g (lit F 0.0004) (lit F 0.01) = (Fin a, g') \<and> - (1 / 2) \<le> a \<and> a \<le> 1)"

text \<open>
  Two consecutive prices of a path: the earlier one is a finite float between \<open>2^-1000\<close>
  and \<open>2^1007\<close> and the later one is its rounded product with a factor between 0.5 and 2.
\<close>

definition step_ok :: "float_format \<Rightarrow> pyfloat \<Rightarrow> pyfloat \<Rightarrow> bool" where
  "step_ok F p p' \<longleftrightarrow>
     (\<exists>a q. p = Fin a \<and> 1 / 2 ^ 1000 \<le> a \<and> a \<le> 2 ^ 1007 \<and> 1 / 2 \<le> q \<and> q \<le> 2
        \<and> p' = fl F (a * q))"

section \<open>The sample format rounds as required\<close>

lemma grid_rnd_exact:
  assumes "0 < S" "x * S = of_int m"
  shows "grid_rnd S x = x"
proof -
  have "round (x * S) = m" by (simp only: assms(2) round_of_int)
  then have "grid_rnd S x = of_int m / S" by (simp add: grid_rnd_def)
  also have "\<dots> = x" using assms by (simp add: field_simps)
  finally show ?thesis .
qed

lemma grid_rnd_mono:
  assumes "0 < S" "x \<le> y"
  shows "grid_rnd S x \<le> grid_rnd S y"
proof -
  have "x * S \<le> y * S" using assms by simp
  then have "round (x * S) \<le> round (y * S)" by (rule round_mono)
  then show ?thesis using assms(1) by (simp add: grid_rnd_def divide_right_mono)
qed

lemma grid_rnd_error:
  assumes "0 < S"
  shows "\<bar>grid_rnd S x - x\<bar> \<le> 1 / (2 * S)"
proof -
  have e: "\<bar>of_int (round (x * S)) - x * S\<bar> \<le> 1 / 2"
    by (rule of_int_round_abs_le)
  have "grid_rnd S x - x = (of_int (round (x * S)) - x * S) / S"
    using assms by (simp add: grid_rnd_def field_simps)
  then have "\<bar>grid_rnd S x - x\<bar> = \<bar>of_int (round (x * S)) - x * S\<bar> / S"
    using assms by (simp add: abs_divide)
  also have "\<dots> \<le> (1 / 2) / S"
    using e assms by (intro divide_right_mono) simp_all
  finally show ?thesis by simp
qed

lemma grid_rnd_min:
  assumes "0 < S"
  shows "grid_rnd S x = 0 \<or> 1 / S \<le> \<bar>grid_rnd S x\<bar>"
proof (cases "round (x * S) = 0")
  case True
  then show ?thesis by (simp add: grid_rnd_def)
next
  case False
  then have "1 \<le> \<bar>round (x * S)\<bar>" by linarith
  then have "(1::real) \<le> \<bar>of_int (round (x * S))\<bar>"
    by (metis of_int_1 of_int_abs of_int_le_iff)
  then have "(1::real) / S \<le> \<bar>of_int (round (x * S))\<bar> / S"
    using assms by (intro divide_right_mono) simp_all
  then show ?thesis using assms by (simp add: grid_rnd_def abs_divide)
qed

lemma grid_rnd_dyadic:
  assumes "k \<le> 1074"
  shows "grid_rnd (2 ^ 1074) (of_int n / 2 ^ k) = of_int n / 2 ^ k"
proof (rule grid_rnd_exact)
  show "(0::real) < 2 ^ 1074" by (rule zero_less_power) simp
  have "(2::real) ^ 1074 = 2 ^ k * 2 ^ (1074 - k)"
    using assms by (simp only: flip: power_add) simp
  then have "of_int n / 2 ^ k * (2::real) ^ 1074 = of_int n / 2 ^ k * (2 ^ k * 2 ^ (1074 - k))"
    by (rule arg_cong)
  also have "\<dots> = of_int n * 2 ^ (1074 - k)"
    by simp
  also have "\<dots> = of_int (n * 2 ^ (1074 - k))"
    by (simp only: of_int_mult of_int_power of_int_numeral)
  finally show "of_int n / 2 ^ k * (2::real) ^ 1074 = of_int (n * 2 ^ (1074 - k))" .
qed

lemma grid_rnd_int: "grid_rnd (2 ^ 1074) (of_int n) = of_int n"
  using grid_rnd_dyadic [of 0 n] by (simp only: power_0 div_by_1 le0)

lemma grid_rounding_ok: "rounding_ok grid_format"
  unfolding rounding_ok_def
proof (intro conjI allI impI)
  have S: "(0::real) < 2 ^ 1074" by (rule zero_less_power) simp
  have r: "rnd grid_format = grid_rnd (2 ^ 1074)" by (simp only: grid_format_def float_format.simps)
  {
    fix x y :: real
    assume "x \<le> y"
    then show "rnd grid_format x \<le> rnd grid_format y"
      unfolding r by (rule grid_rnd_mono [OF S])
  next
    fix n :: int
    show "rnd grid_format (of_int n) = of_int n" unfolding r by (rule grid_rnd_int)
  next
    fix k :: nat
    show "rnd grid_format (2 ^ k) = 2 ^ k"
      unfolding r using grid_rnd_int [of "2 ^ k"] by (simp only: of_int_power of_int_numeral)
    show "rnd grid_format (- (2 ^ k)) = - (2 ^ k)"
      unfolding r using grid_rnd_int [of "- (2 ^ k)"]
      by (simp only: of_int_power of_int_numeral of_int_minus)
  next
    fix k :: nat
    assume k: "k \<le> 1074"
    show "rnd grid_format (1 / 2 ^ k) = 1 / 2 ^ k"
      unfolding r using grid_rnd_dyadic [OF k, of 1] by (simp only: of_int_1)
    show "rnd grid_format (- (1 / 2 ^ k)) = - (1 / 2 ^ k)"
      unfolding r using grid_rnd_dyadic [OF k, of "- 1"]
      by (simp only: of_int_1 of_int_minus minus_divide_left)
  next
    fix x :: real
    assume x: "1 / 2 ^ 1022 \<le> \<bar>x\<bar>"
    have "(1::real) / (2 * 2 ^ 1074) = (1 / 2 ^ 1022) / 2 ^ 53"
      by simp
    also have "\<dots> \<le> \<bar>x\<bar> / 2 ^ 53"
      using x by (rule divide_right_mono) simp
    finally show "\<bar>rnd grid_format x - x\<bar> \<le> \<bar>x\<bar> / 2 ^ 53"
      unfolding r using grid_rnd_error [OF S, of x] by linarith
  next
    fix x :: real
    show "rnd grid_format x = 0 \<or> 1 / 2 ^ 1074 \<le> \<bar>rnd grid_format x\<bar>"
      unfolding r by (rule grid_rnd_min [OF S])
  next
    show "2 ^ 1023 \<le> fmax grid_format"
      by (simp add: grid_format_def)
  }
qed


section \<open>Signs and errors of the float operations\<close>

lemma rnd_mono: "rounding_ok F \<Longrightarrow> x \<le> y \<Longrightarrow> rnd F x \<le> rnd F y"
  by (simp add: rounding_ok_def)

lemma rnd_int: "rounding_ok F \<Longrightarrow> \<bar>n\<bar> \<le> 2 ^ 53 \<Longrightarrow> rnd F (of_int n) = of_int n"
  by (simp add: rounding_ok_def)

lemma rnd_0: "rounding_ok F \<Longrightarrow> rnd F 0 = 0"
  using rnd_int [of F 0] by simp

lemma rnd_1: "rounding_ok F \<Longrightarrow> rnd F 1 = 1"
  using rnd_int [of F 1] by simp

lemma rnd_nonneg: "rounding_ok F \<Longrightarrow> 0 \<le> x \<Longrightarrow> 0 \<le> rnd F x"
  using rnd_mono [of F 0 x] rnd_0 [of F] by simp

lemma rnd_nonpos: "rounding_ok F \<Longrightarrow> x \<le> 0 \<Longrightarrow> rnd F x \<le> 0"
  using rnd_mono [of F x 0] rnd_0 [of F] by simp

lemma rnd_ge_1: "rounding_ok F \<Longrightarrow> 1 \<le> x \<Longrightarrow> 1 \<le> rnd F x"
  using rnd_mono [of F 1 x] rnd_1 [of F] by simp

lemma fmax_ge: "rounding_ok F \<Longrightarrow> 2 ^ 1023 \<le> fmax F"
  by (simp add: rounding_ok_def)

lemma fmax_pos: "rounding_ok F \<Longrightarrow> 0 < fmax F"
  using fmax_ge [of F] by (meson less_le_trans zero_less_numeral zero_less_power)

lemma fl_nonneg: "rounding_ok F \<Longrightarrow> 0 \<le> x \<Longrightarrow> nonneg (fl F x)"
  using rnd_nonneg [of F x] fmax_pos [of F] by (simp add: fl_def)

lemma fadd_nonneg: "rounding_ok F \<Longrightarrow> nonneg x \<Longrightarrow> nonneg y \<Longrightarrow> nonneg (fadd F x y)"
  by (cases x; cases y) (simp_all add: fl_nonneg)

lemma foldl_fadd_nonneg:
  "rounding_ok F \<Longrightarrow> nonneg acc \<Longrightarrow> (\<And>x. x \<in> set xs \<Longrightarrow> nonneg x) \<Longrightarrow> nonneg (foldl (fadd F) acc xs)"
  by (induction xs arbitrary: acc) (simp_all add: fadd_nonneg)

lemma fsum_nonneg:
  "rounding_ok F \<Longrightarrow> (\<And>x. x \<in> set xs \<Longrightarrow> nonneg x) \<Longrightarrow> nonneg (fsum F xs)"
  unfolding fsum_def by (rule foldl_fadd_nonneg) simp_all

lemma fpow2_nonneg: "rounding_ok F \<Longrightarrow> fpow2 F x = Inr y \<Longrightarrow> nonneg y"
  using rnd_nonneg [of F] by (cases x) (auto split: if_splits)

lemma fpow2_error: "fpow2 F x = Inl e \<Longrightarrow> e = OverflowError"
  by (cases x) (auto split: if_splits)

lemma emap_Inr_set:
  "emap f xs = Inr ys \<Longrightarrow> y \<in> set ys \<Longrightarrow> \<exists>x \<in> set xs. f x = Inr y"
  by (induction xs arbitrary: ys) (auto split: sum.splits)

lemma emap_Inl:
  "emap f xs = Inl e \<Longrightarrow> \<exists>x \<in> set xs. f x = Inl e"
  by (induction xs) (auto split: sum.splits)

lemma emap_length: "emap f xs = Inr ys \<Longrightarrow> length ys = length xs"
  by (induction xs arbitrary: ys) (auto split: sum.splits)

lemma sq_devs_nonneg:
  "rounding_ok F \<Longrightarrow> sq_devs F mu xs = Inr sq \<Longrightarrow> y \<in> set sq \<Longrightarrow> nonneg y"
  unfolding sq_devs_def using emap_Inr_set fpow2_nonneg by fastforce

lemma sq_devs_error: "sq_devs F mu xs = Inl e \<Longrightarrow> e = OverflowError"
  unfolding sq_devs_def using emap_Inl fpow2_error by fastforce

lemma float_of_int_error: "float_of_int F n = Inl e \<Longrightarrow> e = OverflowError"
  by (auto simp: float_of_int_def split: if_splits)

lemma float_of_int_pos:
  assumes "rounding_ok F" "1 \<le> n" "float_of_int F n = Inr d"
  shows "\<exists>a. d = Fin a \<and> 1 \<le> a"
proof -
  have "1 \<le> rnd F (of_int n)"
    using assms(1,2) by (intro rnd_ge_1) simp_all
  with assms(3) show ?thesis
    by (auto simp: float_of_int_def split: if_splits)
qed

lemma float_of_int_smaller:
  assumes "rounding_ok F" "1 \<le> m" "m \<le> n" "float_of_int F n = Inr d"
  shows "\<exists>a. float_of_int F m = Inr (Fin a) \<and> 1 \<le> a"
proof -
  have 1: "1 \<le> rnd F (of_int m)"
    using assms(1,2) by (intro rnd_ge_1) simp_all
  have 2: "rnd F (of_int m) \<le> rnd F (of_int n)"
    using assms(1,3) by (intro rnd_mono) simp_all
  have "\<bar>rnd F (of_int n)\<bar> \<le> fmax F"
    using assms(4) by (auto simp: float_of_int_def split: if_splits)
  with 1 2 have "\<bar>rnd F (of_int m)\<bar> \<le> fmax F" by linarith
  with 1 show ?thesis by (simp add: float_of_int_def)
qed

lemma inf_of_sign_nonneg: "0 \<le> s \<Longrightarrow> nonneg (inf_of_sign s)"
  by (simp add: inf_of_sign_def)

lemma fdiv_nonneg_pos:
  assumes "rounding_ok F" "nonneg x" "0 < a"
  shows "\<exists>v. fdiv F x (Fin a) = Inr v \<and> nonneg v"
proof (cases x)
  case (Fin b)
  with assms have "0 \<le> b / a" by simp
  then show ?thesis using Fin assms by (simp add: fl_nonneg)
qed (use assms in \<open>simp_all add: inf_of_sign_def\<close>)

lemma fpow_half_nonneg: "nonneg v \<Longrightarrow> \<exists>sd. fpow_half F v = Inr sd"
  by (cases v) simp_all

lemma fdiv_nonzero: "sd \<noteq> Fin 0 \<Longrightarrow> \<exists>q. fdiv F x sd = Inr q"
  by (cases sd; cases x) (auto)

lemma sharpe_denominator:
  "xs \<noteq> [] \<Longrightarrow> max 1 (int (length xs) - 1) = (if length xs = 1 then 1 else int (length xs) - 1)"
proof -
  assume "xs \<noteq> []"
  then obtain k where "length xs = Suc k" by (cases xs) auto
  then show ?thesis by (simp add: max_def)
qed

lemma sharpe_refines_spec: "sharpe F xs = sharpe_spec F xs"
proof (cases "xs = []")
  case True
  then show ?thesis by (simp add: sharpe_def sharpe_spec_def)
next
  case False
  show ?thesis
    using False sharpe_denominator [OF False]
    by (auto simp: sharpe_def sharpe_spec_def sample_stddev_def sample_variance_def
        sample_mean_def ebind_def split: sum.splits)
qed

lemma variance_nonneg:
  assumes "rounding_ok F" "xs \<noteq> []" "sample_variance F xs = Inr var"
  shows "nonneg var"
proof -
  from assms(3) obtain mu sq d where
    sq: "sq_devs F mu xs = Inr sq" and
    d: "float_of_int F (if length xs = 1 then 1 else int (length xs) - 1) = Inr d" and
    v: "fdiv F (fsum F sq) d = Inr var"
    by (auto simp: sample_variance_def ebind_def split: sum.splits)
  obtain k where "length xs = Suc k" using assms(2) by (cases xs) auto
  then have "1 \<le> (if length xs = 1 then 1 else int (length xs) - 1)"
    by simp
  from float_of_int_pos [OF assms(1) this d] obtain a where a: "d = Fin a" "1 \<le> a" by blast
  have "nonneg (fsum F sq)"
    using sq_devs_nonneg [OF assms(1) sq] by (intro fsum_nonneg [OF assms(1)])
  from fdiv_nonneg_pos [OF assms(1) this, of a] a v show ?thesis by auto
qed

lemma sharpe_cases:
  assumes ok: "rounding_ok F" and ne: "xs \<noteq> []"
  shows "(sharpe_overflows F xs \<and> sharpe F xs = Inl OverflowError)
       \<or> (\<not> sharpe_overflows F xs \<and> (\<exists>v. sharpe F xs = Inr v))"
proof (cases "float_of_int F (int (length xs))")
  case (Inl e)
  then have "e = OverflowError" by (rule float_of_int_error)
  with Inl ne show ?thesis
    by (simp add: sharpe_overflows_def sharpe_def ebind_def)
next
  case (Inr n)
  have len: "1 \<le> int (length xs)" using ne by (cases xs) auto
  from float_of_int_pos [OF ok len Inr] obtain a where a: "n = Fin a" "1 \<le> a" by blast
  then obtain mu where mu: "fdiv F (fsum F xs) n = Inr mu"
    using fdiv_nonzero [of n F "fsum F xs"] by auto
  have mean: "sample_mean F xs = Inr mu"
    using Inr mu by (simp add: sample_mean_def ebind_def)
  show ?thesis
  proof (cases "sq_devs F mu xs")
    case (Inl e)
    then have "e = OverflowError" by (rule sq_devs_error)
    with Inl Inr mu mean ne show ?thesis
      by (simp add: sharpe_overflows_def sharpe_def ebind_def)
  next
    case sq: (Inr sq)
    have no: "\<not> sharpe_overflows F xs"
      using Inr mean sq by (simp add: sharpe_overflows_def)
    have dle: "1 \<le> max 1 (int (length xs) - 1)" "max 1 (int (length xs) - 1) \<le> int (length xs)"
      using len by auto
    from float_of_int_smaller [OF ok dle Inr] obtain b where
      b: "float_of_int F (max 1 (int (length xs) - 1)) = Inr (Fin b)" "1 \<le> b" by blast
    have "nonneg (fsum F sq)"
      using sq_devs_nonneg [OF ok sq] by (intro fsum_nonneg [OF ok])
    from fdiv_nonneg_pos [OF ok this, of b] b obtain var where
      var: "fdiv F (fsum F sq) (Fin b) = Inr var" "nonneg var" by auto
    from fpow_half_nonneg [OF var(2)] obtain sd where sd: "fpow_half F var = Inr sd" by blast
    have "\<exists>v. sharpe F xs = Inr v"
    proof (cases "sd = Fin 0")
      case True
      then show ?thesis using ne Inr mu sq b var sd by (simp add: sharpe_def ebind_def)
    next
      case False
      from fdiv_nonzero [OF False] obtain q where "fdiv F mu sd = Inr q" by blast
      then show ?thesis using False ne Inr mu sq b var sd by (simp add: sharpe_def ebind_def)
    qed
    with no show ?thesis by blast
  qed
qed


section \<open>The Sharpe ratio\<close>

lemma grid_rnd_numeral [simp]: "rnd grid_format (numeral n) = numeral n"
  using grid_rnd_int [of "numeral n"] by (simp add: grid_format_def)

lemma grid_rnd_neg_numeral [simp]: "rnd grid_format (- numeral n) = - numeral n"
  using grid_rnd_int [of "- numeral n"] by (simp add: grid_format_def)

lemma grid_rnd_zero [simp]: "rnd grid_format 0 = 0"
  using grid_rnd_int [of 0] by (simp add: grid_format_def)

lemma grid_rnd_one [simp]: "rnd grid_format 1 = 1"
  using grid_rnd_int [of 1] by (simp add: grid_format_def)

lemma grid_rnd_neg_one [simp]: "rnd grid_format (- 1) = - 1"
  using grid_rnd_int [of "- 1"] by (simp add: grid_format_def)

lemma grid_rnd_of_int [simp]: "rnd grid_format (of_int n) = of_int n"
  using grid_rnd_int [of n] by (simp add: grid_format_def)

lemma grid_fmax [simp]: "fmax grid_format = 2 ^ 1024 - 2 ^ 971"
  by (simp add: grid_format_def)

text \<open>
  C9, as the code has it. \<^verbatim>\<open>sharpe\<close> is the specification's ratio computed in floating
  point: 0.0 on the empty series and when the computed standard deviation is zero,
  otherwise mean over standard deviation times the square root of 252. It never divides
  by zero. It raises \<^verbatim>\<open>OverflowError\<close> exactly when the length is beyond the float range
  or a squared deviation overflows, and returns a float otherwise.
\<close>

theorem sharpe_floating_point:
  assumes "rounding_ok F"
  shows "sharpe F xs = sharpe_spec F xs
       \<and> sharpe F xs \<noteq> Inl ZeroDivisionError
       \<and> ((sharpe_overflows F xs \<and> sharpe F xs = Inl OverflowError)
          \<or> (\<not> sharpe_overflows F xs \<and> (\<exists>v. sharpe F xs = Inr v)))"
proof (cases "xs = []")
  case True
  then show ?thesis
    by (simp add: sharpe_refines_spec sharpe_spec_def sharpe_overflows_def)
next
  case False
  from sharpe_cases [OF assms False] show ?thesis
    using sharpe_refines_spec [of F xs] by auto
qed

theorem sharpe_floating_point_witness:
  "rounding_ok grid_format
   \<and> sharpe grid_format [Fin 1, Fin 3] = sharpe_spec grid_format [Fin 1, Fin 3]
   \<and> sharpe grid_format [Fin 1, Fin 3] \<noteq> Inl ZeroDivisionError
   \<and> \<not> sharpe_overflows grid_format [Fin 1, Fin 3]
   \<and> (\<exists>v. sharpe grid_format [Fin 1, Fin 3] = Inr v)"
proof -
  have n: "float_of_int grid_format 2 = Inr (Fin 2)"
    by (simp add: float_of_int_def)
  have s: "fsum grid_format [Fin 1, Fin 3] = Fin 4"
    by (simp add: fsum_def fl_def)
  have m: "sample_mean grid_format [Fin 1, Fin 3] = Inr (Fin 2)"
    by (simp add: sample_mean_def n s ebind_def fl_def)
  have q: "sq_devs grid_format (Fin 2) [Fin 1, Fin 3] = Inr [Fin 1, Fin 1]"
    by (simp add: sq_devs_def fsub_def fl_def)
  have no: "\<not> sharpe_overflows grid_format [Fin 1, Fin 3]"
    by (simp add: sharpe_overflows_def n m q)
  from sharpe_floating_point [OF grid_rounding_ok, of "[Fin 1, Fin 3]"] no
  show ?thesis using grid_rounding_ok by blast
qed

text \<open>
  C9 as stated says that \<^verbatim>\<open>sharpe\<close> returns on every input. On the series
  \<open>[1e200, 0.0]\<close> the mean is \<open>5e199\<close> and the first squared deviation is beyond the
  float range: \<^verbatim>\<open>(x-mu)**2\<close> raises.
\<close>

theorem sharpe_overflow_counterexample:
  "sharpe grid_format [Fin (10 ^ 200), Fin 0] = Inl OverflowError"
proof -
  define A :: real where "A = 10 ^ 200"
  define B :: real where "B = 5 * 10 ^ 199"
  have A: "A = of_int (10 ^ 200)" and B: "B = of_int (5 * 10 ^ 199)"
    by (simp_all add: A_def B_def)
  have rA: "rnd grid_format A = A" and rB: "rnd grid_format B = B"
    unfolding A B by (rule grid_rnd_of_int)+
  have "B\<^sup>2 = of_int ((5 * 10 ^ 199)\<^sup>2)"
    unfolding B by simp
  then have rB2: "rnd grid_format (B\<^sup>2) = B\<^sup>2"
    by (simp only: grid_rnd_of_int)
  have AB: "A / 2 = B" "A - B = B" "0 - B = - B" by (simp_all add: A_def B_def)
  have le: "A \<le> fmax grid_format" "- fmax grid_format \<le> A" "B \<le> fmax grid_format"
    "- fmax grid_format \<le> B" "fmax grid_format < B\<^sup>2"
    by (simp_all add: A_def B_def)
  have n: "float_of_int grid_format (int (length [Fin A, Fin 0])) = Inr (Fin 2)"
    by (simp add: float_of_int_def)
  have s: "fsum grid_format [Fin A, Fin 0] = Fin A"
    using le by (simp add: fsum_def fl_def rA)
  have m: "fdiv grid_format (Fin A) (Fin 2) = Inr (Fin B)"
    using le by (simp add: fl_def AB rB)
  have d: "fsub grid_format (Fin A) (Fin B) = Fin B"
    using le by (simp add: fsub_def fl_def AB rB)
  have p: "fpow2 grid_format (Fin B) = Inl OverflowError"
    using le by (simp add: rB2)
  have q: "sq_devs grid_format (Fin B) [Fin A, Fin 0] = Inl OverflowError"
    by (simp only: sq_devs_def emap.simps d p sum.case)
  have "sharpe grid_format [Fin A, Fin 0] = Inl OverflowError"
    by (simp only: sharpe_def n s m q ebind_def sum.case list.distinct if_False)
  then show ?thesis by (simp only: A_def)
qed


section \<open>The rolling window\<close>

lemma window_length:
  "i < length rets \<Longrightarrow> length (window rets i) = min (i + 1) 21"
  by (auto simp: window_def win_def Let_def min_def max_def)

lemma window_nonempty: "i < length rets \<Longrightarrow> window rets i \<noteq> []"
  using window_length [of i rets] by auto

lemma window_subset: "set (window rets i) \<subseteq> set rets"
  unfolding window_def Let_def by (meson set_drop_subset set_take_subset subset_trans)

text \<open>
  C7. The window of day 20 on a series of 30 returns: the slice starts at index 0 and
  holds 21 returns, not 20 (see \<open>window_length\<close> for every day).
\<close>

theorem window_day_20_has_21_returns:
  "window (map real [0 ..< 30]) 20 = map real [0 ..< 21]
   \<and> length (window (map real [0 ..< 30]) 20) = 21"
  by (simp add: window_def win_def take_map)


section \<open>Bounds that rule out overflow\<close>

lemma fin_leE: "fin_le B x \<Longrightarrow> \<exists>a. x = Fin a \<and> \<bar>a\<bar> \<le> B"
  by (cases x) (simp_all add: fin_le_def)

lemma fin_le_Fin [simp]: "fin_le B (Fin a) \<longleftrightarrow> \<bar>a\<bar> \<le> B"
  by (simp add: fin_le_def)

lemma fin_le_mono: "fin_le B x \<Longrightarrow> B \<le> C \<Longrightarrow> fin_le C x"
  by (cases x) (simp_all add: fin_le_def)

lemma rnd_pow2: "rounding_ok F \<Longrightarrow> k \<le> 1023 \<Longrightarrow> rnd F (2 ^ k) = 2 ^ k"
  by (simp add: rounding_ok_def)

lemma rnd_neg_pow2: "rounding_ok F \<Longrightarrow> k \<le> 1023 \<Longrightarrow> rnd F (- (2 ^ k)) = - (2 ^ k)"
  by (simp add: rounding_ok_def)

lemma rnd_inv_pow2: "rounding_ok F \<Longrightarrow> k \<le> 1074 \<Longrightarrow> rnd F (1 / 2 ^ k) = 1 / 2 ^ k"
  by (simp add: rounding_ok_def)

lemma rnd_min_pos: "rounding_ok F \<Longrightarrow> rnd F x = 0 \<or> 1 / 2 ^ 1074 \<le> \<bar>rnd F x\<bar>"
  by (simp add: rounding_ok_def)

lemma rnd_abs_le:
  assumes "rounding_ok F" "k \<le> 1023" "\<bar>x\<bar> \<le> 2 ^ k"
  shows "\<bar>rnd F x\<bar> \<le> 2 ^ k"
proof -
  have "rnd F x \<le> rnd F (2 ^ k)" "rnd F (- (2 ^ k)) \<le> rnd F x"
    using assms(3) by (auto intro!: rnd_mono [OF assms(1)])
  then show ?thesis
    using rnd_pow2 [OF assms(1,2)] rnd_neg_pow2 [OF assms(1,2)] by linarith
qed

lemma pow2_le_fmax: "rounding_ok F \<Longrightarrow> k \<le> 1023 \<Longrightarrow> 2 ^ k \<le> fmax F"
proof -
  assume ok: "rounding_ok F" and k: "k \<le> 1023"
  have "(2::real) ^ k \<le> 2 ^ 1023" using k by (intro power_increasing) simp_all
  with fmax_ge [OF ok] show ?thesis by linarith
qed

lemma fl_fin:
  assumes "rounding_ok F" "k \<le> 1023" "\<bar>x\<bar> \<le> 2 ^ k"
  shows "fl F x = Fin (rnd F x)"
proof -
  have "\<bar>rnd F x\<bar> \<le> fmax F"
    using rnd_abs_le [OF assms] pow2_le_fmax [OF assms(1,2)] by linarith
  then have "\<not> rnd F x > fmax F" "\<not> rnd F x < - fmax F" by linarith+
  then show ?thesis by (simp add: fl_def)
qed

lemma fl_fin_le:
  assumes "rounding_ok F" "k \<le> 1023" "\<bar>x\<bar> \<le> 2 ^ k"
  shows "fin_le (2 ^ k) (fl F x)"
  using fl_fin [OF assms] rnd_abs_le [OF assms] by simp

lemma fl_zero: "rounding_ok F \<Longrightarrow> fl F 0 = Fin 0"
  using fl_fin [of F 0 0] rnd_0 [of F] by simp

lemma fl_one: "rounding_ok F \<Longrightarrow> fl F 1 = Fin 1"
  using fl_fin [of F 0 1] rnd_1 [of F] by simp

lemma lit_zero: "rounding_ok F \<Longrightarrow> lit F 0 = Fin 0"
  by (simp add: lit_def rnd_0)

lemma lit_one: "rounding_ok F \<Longrightarrow> lit F 1 = Fin 1"
  by (simp add: lit_def rnd_1)

lemma fl_rounded: "rounding_ok F \<Longrightarrow> rounded (fl F x)"
  using rnd_min_pos [of F x] by (simp add: fl_def rounded_def)

lemma fadd_fin_le:
  assumes "rounding_ok F" "fin_le (2 ^ k) x" "fin_le (2 ^ k) y" "Suc k \<le> 1023"
  shows "fin_le (2 ^ Suc k) (fadd F x y)"
proof -
  from assms(2,3) obtain a b where ab: "x = Fin a" "y = Fin b" "\<bar>a\<bar> \<le> 2 ^ k" "\<bar>b\<bar> \<le> 2 ^ k"
    by (auto dest!: fin_leE)
  then have "\<bar>a + b\<bar> \<le> 2 ^ Suc k" by simp
  from fl_fin_le [OF assms(1,4) this] ab show ?thesis by simp
qed

lemma fneg_fin_le: "fin_le B x \<Longrightarrow> fin_le B (fneg x)"
  by (cases x) (simp_all add: fin_le_def)

lemma fsub_fin_le:
  assumes "rounding_ok F" "fin_le (2 ^ k) x" "fin_le (2 ^ k) y" "Suc k \<le> 1023"
  shows "fin_le (2 ^ Suc k) (fsub F x y)"
  unfolding fsub_def using assms fneg_fin_le by (intro fadd_fin_le) auto

lemma foldl_fadd_fin_le:
  assumes "rounding_ok F"
  shows "fin_le (2 ^ j) acc \<Longrightarrow> (\<And>x. x \<in> set xs \<Longrightarrow> fin_le (2 ^ j) x) \<Longrightarrow>
         j + length xs \<le> 1023 \<Longrightarrow> fin_le (2 ^ (j + length xs)) (foldl (fadd F) acc xs)"
proof (induction xs arbitrary: acc j)
  case Nil
  then show ?case by simp
next
  case (Cons x xs)
  have 1: "fin_le (2 ^ Suc j) (fadd F acc x)"
    using Cons.prems by (intro fadd_fin_le [OF assms]) simp_all
  have 2: "fin_le (2 ^ Suc j) y" if "y \<in> set xs" for y
    using Cons.prems(2) [of y] that by (auto intro: fin_le_mono)
  from Cons.IH [OF 1 2] Cons.prems(3) show ?case by simp
qed

lemma fsum_fin_le:
  assumes "rounding_ok F" "\<And>x. x \<in> set xs \<Longrightarrow> fin_le (2 ^ j) x" "j + length xs \<le> 1023"
  shows "fin_le (2 ^ (j + length xs)) (fsum F xs)"
  unfolding fsum_def using assms by (intro foldl_fadd_fin_le) simp_all

lemma float_of_int_small:
  assumes "rounding_ok F" "\<bar>n\<bar> \<le> 2 ^ 53"
  shows "float_of_int F n = Inr (Fin (of_int n))"
proof -
  have "\<bar>real_of_int n\<bar> \<le> 2 ^ 53"
    using assms(2) by (metis of_int_abs of_int_le_iff of_int_numeral of_int_power)
  also have "\<dots> \<le> fmax F" using pow2_le_fmax [OF assms(1), of 53] by simp
  finally show ?thesis using rnd_int [OF assms] by (simp add: float_of_int_def)
qed

lemma fdiv_fin_le:
  assumes "rounding_ok F" "fin_le (2 ^ k) x" "1 \<le> a" "k \<le> 1023"
  shows "\<exists>v. fdiv F x (Fin a) = Inr v \<and> fin_le (2 ^ k) v"
proof -
  from assms(2) obtain b where b: "x = Fin b" "\<bar>b\<bar> \<le> 2 ^ k" by (auto dest!: fin_leE)
  have "\<bar>b\<bar> * 1 \<le> \<bar>b\<bar> * a" using assms(3) by (intro mult_left_mono) simp_all
  then have "\<bar>b / a\<bar> \<le> \<bar>b\<bar>" using assms(3) by (simp add: field_simps)
  with b have "\<bar>b / a\<bar> \<le> 2 ^ k" by linarith
  from fl_fin_le [OF assms(1,4) this] b assms(3) show ?thesis by simp
qed

lemma fpow2_fin_le:
  assumes "rounding_ok F" "fin_le (2 ^ k) x" "2 * k \<le> 1023"
  shows "\<exists>y. fpow2 F x = Inr y"
proof -
  from assms(2) obtain a where a: "x = Fin a" "\<bar>a\<bar> \<le> 2 ^ k" by (auto dest!: fin_leE)
  have "a\<^sup>2 \<le> (2 ^ k)\<^sup>2" using a(2) by (metis abs_le_square_iff abs_of_nonneg zero_le_numeral zero_le_power)
  then have "\<bar>a\<^sup>2\<bar> \<le> 2 ^ (2 * k)" by (simp add: power_mult power2_eq_square mult.commute)
  from rnd_abs_le [OF assms(1,3) this] pow2_le_fmax [OF assms(1,3)]
  have "rnd F (a\<^sup>2) \<le> fmax F" by linarith
  then show ?thesis using a by simp
qed

lemma emap_total:
  "(\<And>x. x \<in> set xs \<Longrightarrow> \<exists>y. f x = Inr y \<and> Q y) \<Longrightarrow>
     \<exists>ys. emap f xs = Inr ys \<and> length ys = length xs \<and> (\<forall>y \<in> set ys. Q y)"
proof (induction xs)
  case Nil
  then show ?case by simp
next
  case (Cons x xs)
  then obtain y where y: "f x = Inr y" "Q y" by auto
  from Cons obtain ys where ys: "emap f xs = Inr ys" "length ys = length xs" "\<forall>y \<in> set ys. Q y"
    by auto
  show ?case using y ys by simp
qed


section \<open>The z-score never raises on bounded returns\<close>

lemma sqrt_inv_pow2_1074: "sqrt (1 / 2 ^ 1074) = 1 / 2 ^ 537"
proof -
  have "(1 / (2::real) ^ 537)\<^sup>2 = 1 / 2 ^ 1074"
    by (simp only: power_divide power_one flip: power_mult) simp
  moreover have "0 \<le> 1 / (2::real) ^ 537" by simp
  ultimately show ?thesis by (metis real_sqrt_unique)
qed

lemma fpow_half_pos:
  assumes "rounding_ok F" "rounded var" "fgt var (Fin 0)"
  shows "\<exists>sd. fpow_half F var = Inr sd \<and> sd \<noteq> Fin 0"
proof (cases var)
  case (Fin a)
  with assms(3) have pos: "0 < a" by simp
  with assms(2) Fin have "1 / 2 ^ 1074 \<le> a" by (simp add: rounded_def)
  then have "sqrt (1 / 2 ^ 1074) \<le> sqrt a" by (simp only: real_sqrt_le_iff)
  then have "1 / 2 ^ 537 \<le> sqrt a" by (simp only: sqrt_inv_pow2_1074)
  then have "rnd F (1 / 2 ^ 537) \<le> rnd F (sqrt a)" by (rule rnd_mono [OF assms(1)])
  then have "1 / 2 ^ 537 \<le> rnd F (sqrt a)"
    using rnd_inv_pow2 [OF assms(1), of 537] by simp
  moreover have "(0::real) < 1 / 2 ^ 537" by simp
  ultimately have "rnd F (sqrt a) \<noteq> 0" by linarith
  then show ?thesis using Fin pos by simp
qed (use assms in simp_all)

lemma lit_epsilon_nonzero:
  assumes "rounding_ok F"
  shows "lit F (1 / 10 ^ 9) \<noteq> Fin 0"
proof -
  have "(1::real) / 2 ^ 30 \<le> 1 / 10 ^ 9" by simp
  then have "rnd F (1 / 2 ^ 30) \<le> rnd F (1 / 10 ^ 9)" by (rule rnd_mono [OF assms])
  then have "1 / 2 ^ 30 \<le> rnd F (1 / 10 ^ 9)"
    using rnd_inv_pow2 [OF assms, of 30] by simp
  moreover have "(0::real) < 1 / 2 ^ 30" by simp
  ultimately have "rnd F (1 / 10 ^ 9) \<noteq> 0" by linarith
  then show ?thesis by (simp add: lit_def)
qed

lemma fdiv_rounded:
  assumes "rounding_ok F" "fdiv F x d = Inr v"
  shows "rounded v"
proof (cases d)
  case (Fin b)
  show ?thesis
  proof (cases x)
    case x: (Fin a)
    with Fin assms(2) have "v = fl F (a / b)" by (auto split: if_splits)
    then show ?thesis by (simp add: fl_rounded [OF assms(1)])
  next
    case PInf
    with Fin assms(2) show ?thesis
      by (auto simp: rounded_def inf_of_sign_def split: if_splits)
  next
    case NInf
    with Fin assms(2) show ?thesis
      by (auto simp: rounded_def inf_of_sign_def split: if_splits)
  next
    case NaN
    with Fin assms(2) show ?thesis by (auto simp: rounded_def split: if_splits)
  qed
next
  case PInf
  with assms(2) show ?thesis by (cases x) (auto simp: rounded_def)
next
  case NInf
  with assms(2) show ?thesis by (cases x) (auto simp: rounded_def)
next
  case NaN
  with assms(2) show ?thesis by (auto simp: rounded_def)
qed

lemma sq_devs_total:
  assumes "rounding_ok F" "fin_le (2 ^ k) mu" "\<And>x. x \<in> set w \<Longrightarrow> fin_le (2 ^ k) x"
    "2 * Suc k \<le> 1023"
  shows "\<exists>sq. sq_devs F mu w = Inr sq \<and> length sq = length w \<and> (\<forall>y \<in> set sq. nonneg y)"
  unfolding sq_devs_def
proof (rule emap_total)
  fix x assume "x \<in> set w"
  then have "fin_le (2 ^ Suc k) (fsub F x mu)"
    using assms by (intro fsub_fin_le) simp_all
  from fpow2_fin_le [OF assms(1) this assms(4)] obtain y where y: "fpow2 F (fsub F x mu) = Inr y"
    by blast
  with fpow2_nonneg [OF assms(1) y] show "\<exists>y. fpow2 F (fsub F x mu) = Inr y \<and> nonneg y"
    by blast
qed

lemma window_var_total:
  assumes "rounding_ok F" "fin_le (2 ^ k) mu" "\<And>x. x \<in> set w \<Longrightarrow> fin_le (2 ^ k) x"
    "2 * Suc k \<le> 1023" "int (length w) \<le> 2 ^ 53"
  shows "\<exists>var. window_var F mu w = Inr var \<and> nonneg var \<and> rounded var"
proof (cases "length w > 1")
  case False
  then show ?thesis
    by (simp add: window_var_def lit_zero [OF assms(1)] rounded_def)
next
  case True
  from sq_devs_total [OF assms(1-4)] obtain sq where
    sq: "sq_devs F mu w = Inr sq" "\<forall>y \<in> set sq. nonneg y" by blast
  have d: "float_of_int F (max 1 (int (length w) - 1)) = Inr (Fin (of_int (max 1 (int (length w) - 1))))"
    using assms(5) by (intro float_of_int_small [OF assms(1)]) auto
  have "nonneg (fsum F sq)"
    using sq(2) by (intro fsum_nonneg [OF assms(1)]) simp
  moreover have "0 < real_of_int (max 1 (int (length w) - 1))" by simp
  ultimately obtain var where
    var: "fdiv F (fsum F sq) (Fin (of_int (max 1 (int (length w) - 1)))) = Inr var" "nonneg var"
    using fdiv_nonneg_pos [OF assms(1)] by blast
  from fdiv_rounded [OF assms(1) var(1)] have "rounded var" .
  with True sq d var show ?thesis by (simp add: window_var_def ebind_def)
qed

lemma zscore_total:
  assumes ok: "rounding_ok F" and i: "i < length rets"
    and bd: "\<And>x. x \<in> set rets \<Longrightarrow> fin_le (2 ^ 400) x"
  shows "\<exists>z. zscore F rets i = Inr z"
proof -
  define w where "w = window rets i"
  have len: "length w = min (i + 1) 21" unfolding w_def by (rule window_length [OF i])
  then have len1: "1 \<le> int (length w)" "int (length w) \<le> 21" by auto
  have wbd: "fin_le (2 ^ 400) x" if "x \<in> set w" for x
    using that window_subset [of rets i] bd unfolding w_def by blast
  have n: "float_of_int F (int (length w)) = Inr (Fin (of_int (int (length w))))"
    using len1 by (intro float_of_int_small [OF ok]) auto
  have "fin_le (2 ^ (400 + length w)) (fsum F w)"
    using wbd len1 by (intro fsum_fin_le [OF ok]) auto
  moreover have "(2::real) ^ (400 + length w) \<le> 2 ^ 421"
    using len1 by (intro power_increasing) auto
  ultimately have s: "fin_le (2 ^ 421) (fsum F w)" by (rule fin_le_mono)
  have "1 \<le> real_of_int (int (length w))" using len1 by linarith
  from fdiv_fin_le [OF ok s this]
  obtain mu where mu: "fdiv F (fsum F w) (Fin (of_int (int (length w)))) = Inr mu"
    "fin_le (2 ^ 421) mu" by auto
  have wbd': "fin_le (2 ^ 421) x" if "x \<in> set w" for x
    using wbd [OF that] by (rule fin_le_mono) simp
  have "2 * Suc 421 \<le> (1023::nat)" by simp
  moreover have "int (length w) \<le> 2 ^ 53" using len1 by simp
  ultimately obtain var where var: "window_var F mu w = Inr var" "nonneg var" "rounded var"
    using window_var_total [OF ok mu(2) wbd', of w] by blast
  have "\<exists>sd. (if fgt var (Fin 0) then fpow_half F var else Inr (lit F (1 / 10 ^ 9))) = Inr sd
          \<and> sd \<noteq> Fin 0"
    using fpow_half_pos [OF ok var(3)] lit_epsilon_nonzero [OF ok] by auto
  then obtain sd where sd:
    "(if fgt var (Fin 0) then fpow_half F var else Inr (lit F (1 / 10 ^ 9))) = Inr sd"
    "sd \<noteq> Fin 0" by blast
  from fdiv_nonzero [OF sd(2)] obtain z where "fdiv F (fsub F (rets ! i) mu) sd = Inr z"
    by blast
  then show ?thesis
    unfolding zscore_def Let_def w_def [symmetric]
    by (simp only: n mu(1) var(1) sd(1) ebind_def sum.case) blast
qed


section \<open>The inert modes\<close>

lemma new_position_inert:
  "mode \<noteq> ''baseline'' \<Longrightarrow> mode \<noteq> ''ablation'' \<Longrightarrow> new_position pr mode 0 z = 0"
  by (simp add: new_position_def)

lemma day_step_inert:
  assumes "rounding_ok F" "mode \<noteq> ''baseline''" "mode \<noteq> ''ablation''"
  shows "day_step F pr mode 0 (Fin a) z = flat_day"
  using new_position_inert [OF assms(2,3)] fl_zero [OF assms(1)] lit_zero [OF assms(1)]
  by (simp add: day_step_def flat_day_def fsub_def Let_def)

lemma backtest_loop_inert:
  assumes "rounding_ok F" "mode \<noteq> ''baseline''" "mode \<noteq> ''ablation''"
    and "\<And>x. x \<in> set rets \<Longrightarrow> fin_le (2 ^ 400) x"
  shows "(\<And>i. i \<in> set is \<Longrightarrow> i < length rets) \<Longrightarrow>
         backtest_loop F pr mode rets is 0 acc = Inr (acc @ replicate (length is) flat_day)"
proof (induction "is" arbitrary: acc)
  case Nil
  then show ?case by simp
next
  case (Cons i "is")
  then have i: "i < length rets" by simp
  from zscore_total [OF assms(1) i assms(4)] obtain z where z: "zscore F rets i = Inr z"
    by blast
  from assms(4) [of "rets ! i"] i obtain a where a: "rets ! i = Fin a"
    by (auto dest!: fin_leE)
  have step: "day_step F pr mode 0 (rets ! i) z = flat_day"
    unfolding a by (rule day_step_inert [OF assms(1-3)])
  have "backtest_loop F pr mode rets (i # is) 0 acc
      = backtest_loop F pr mode rets is 0 (acc @ [flat_day])"
    by (simp add: z step) (simp add: flat_day_def)
  also have "\<dots> = Inr ((acc @ [flat_day]) @ replicate (length is) flat_day)"
    using Cons.prems by (intro Cons.IH) simp
  finally show ?case by (simp add: replicate_app_Cons_same)
qed

lemma simulate_inert:
  assumes "rounding_ok F" "mode \<noteq> ''baseline''" "mode \<noteq> ''ablation''"
    and "\<And>x. x \<in> set rets \<Longrightarrow> fin_le (2 ^ 400) x"
  shows "simulate F pr mode rets = Inr (replicate (length rets) flat_day)"
  using backtest_loop_inert [OF assms, where ?is = "[0 ..< length rets]" and acc = "[]"]
  by (simp add: simulate_def)

lemma foldl_equity_zeros:
  assumes "rounding_ok F"
  shows "foldl (\<lambda>eq x. fmul F eq (fadd F (Fin 1) x)) (Fin 1) (replicate n (Fin 0)) = Fin 1"
  by (induction n) (simp_all add: fl_one [OF assms])

lemma foldl_fadd_zeros:
  assumes "rounding_ok F"
  shows "foldl (fadd F) (Fin 0) (replicate n (Fin 0)) = Fin 0"
  by (induction n) (simp_all add: fl_zero [OF assms])

lemma sq_devs_zeros:
  assumes "rounding_ok F"
  shows "sq_devs F (Fin 0) (replicate n (Fin 0)) = Inr (replicate n (Fin 0))"
proof -
  have "fmax F \<ge> 0" using fmax_pos [OF assms] by simp
  then have "fpow2 F (fsub F (Fin 0) (Fin 0)) = Inr (Fin 0)"
    by (simp add: fsub_def fl_zero [OF assms] rnd_0 [OF assms])
  then show ?thesis
    unfolding sq_devs_def by (induction n) simp_all
qed

lemma sharpe_zeros:
  assumes "rounding_ok F" "int n \<le> 2 ^ 53"
  shows "sharpe F (replicate n (Fin 0)) = Inr (Fin 0)"
proof (cases "n = 0")
  case True
  then show ?thesis by (simp add: sharpe_def)
next
  case False
  then have n1: "1 \<le> int n" by simp
  have c: "float_of_int F (int n) = Inr (Fin (of_int (int n)))"
    using assms(2) n1 by (intro float_of_int_small [OF assms(1)]) simp
  have d: "float_of_int F (max 1 (int n - 1)) = Inr (Fin (of_int (max 1 (int n - 1))))"
    using assms(2) n1 by (intro float_of_int_small [OF assms(1)]) auto
  have s: "fsum F (replicate n (Fin 0)) = Fin 0"
    by (simp add: fsum_def foldl_fadd_zeros [OF assms(1)])
  have m: "fdiv F (Fin 0) (Fin (of_int (int n))) = Inr (Fin 0)"
    using n1 by (simp add: fl_zero [OF assms(1)])
  have v: "fdiv F (Fin 0) (Fin (of_int (max 1 (int n - 1)))) = Inr (Fin 0)"
    by (simp add: fl_zero [OF assms(1)])
  have h: "fpow_half F (Fin 0) = Inr (Fin 0)"
    by (simp add: rnd_0 [OF assms(1)])
  have "replicate n (Fin 0) \<noteq> []" using False by simp
  then show ?thesis
    unfolding sharpe_def
    by (simp only: length_replicate c s m sq_devs_zeros [OF assms(1)] d v h ebind_def sum.case
        if_False if_True simp_thms)
qed

lemma summarize_zeros:
  assumes "rounding_ok F" "int n \<le> 2 ^ 53"
  shows "summarize F (replicate n (Fin 0)) = Inr inert_result"
proof -
  have "filter (\<lambda>i. fne (replicate n (Fin 0) ! i) (replicate n (Fin 0) ! (i - 1))) [1 ..< n] = []"
    by (auto simp: filter_empty_conv fne_def)
  then show ?thesis
    by (simp add: summarize_def sharpe_zeros [OF assms] ebind_def lit_one [OF assms(1)]
        foldl_equity_zeros [OF assms(1)] inert_result_def)
qed

lemma backtest_rets_inert:
  assumes "rounding_ok F" "mode \<noteq> ''baseline''" "mode \<noteq> ''ablation''"
    and "\<And>x. x \<in> set rets \<Longrightarrow> fin_le (2 ^ 400) x" and "int (length rets) \<le> 2 ^ 53"
  shows "backtest_rets F pr mode rets = Inr inert_result"
  using summarize_zeros [OF assms(1,5)]
  by (simp add: backtest_rets_def simulate_inert [OF assms(1-4)] ebind_def flat_day_def)


section \<open>Prices and returns under bounded draws\<close>

lemma rnd_between_pow2:
  assumes "rounding_ok F" "1 / 2 ^ j \<le> x" "x \<le> 2 ^ k" "j \<le> 1074" "k \<le> 1023"
  shows "1 / 2 ^ j \<le> rnd F x" "rnd F x \<le> 2 ^ k" "fl F x = Fin (rnd F x)"
proof -
  show 1: "1 / 2 ^ j \<le> rnd F x"
    using rnd_mono [OF assms(1,2)] rnd_inv_pow2 [OF assms(1,4)] by simp
  show 2: "rnd F x \<le> 2 ^ k"
    using rnd_mono [OF assms(1,3)] rnd_pow2 [OF assms(1,5)] by simp
  have "0 \<le> x" using assms(2) by (meson divide_nonneg_nonneg order_trans zero_le_numeral zero_le_one zero_le_power)
  then have "\<bar>x\<bar> \<le> 2 ^ k" using assms(3) by simp
  then show "fl F x = Fin (rnd F x)" by (rule fl_fin [OF assms(1,5)])
qed

lemma growth_factor:
  assumes "rounding_ok F" "- (1 / 2) \<le> r" "r \<le> 1"
  shows "fadd F (lit F 1) (Fin r) = Fin (rnd F (1 + r))" "1 / 2 \<le> rnd F (1 + r)" "rnd F (1 + r) \<le> 2"
  using rnd_between_pow2 [OF assms(1), of 1 "1 + r" 1] assms(2,3)
  by (simp_all add: lit_one [OF assms(1)])

lemma price_step:
  assumes "rounding_ok F" "1 / 2 ^ j \<le> a" "a \<le> 2 ^ (7 + j)" "j < 1000" "1 / 2 \<le> q" "q \<le> 2"
  shows "1 / 2 ^ Suc j \<le> rnd F (a * q)" "rnd F (a * q) \<le> 2 ^ (7 + Suc j)"
    "fl F (a * q) = Fin (rnd F (a * q))"
proof -
  have a0: "0 \<le> a" using assms(2) by (meson divide_nonneg_nonneg order_trans zero_le_numeral zero_le_one zero_le_power)
  have "(1 / 2 ^ j) * (1 / 2) \<le> a * q"
    using assms(2,5) a0 by (intro mult_mono) simp_all
  then have lo: "1 / 2 ^ Suc j \<le> a * q" by simp
  have q0: "0 \<le> q" using assms(5) by simp
  have "a * q \<le> 2 ^ (7 + j) * 2"
    using assms(3,6) a0 q0 by (intro mult_mono) simp_all
  then have hi: "a * q \<le> 2 ^ (7 + Suc j)" by (simp add: power_add)
  from rnd_between_pow2 [OF assms(1) lo hi] assms(4)
  show "1 / 2 ^ Suc j \<le> rnd F (a * q)" "rnd F (a * q) \<le> 2 ^ (7 + Suc j)"
    "fl F (a * q) = Fin (rnd F (a * q))" by simp_all
qed

lemma gen_prices_loop_chain:
  assumes ok: "rounding_ok F" and dr: "draws_ok F E"
  shows "1 / 2 ^ j \<le> a \<Longrightarrow> a \<le> 2 ^ (7 + j) \<Longrightarrow> j + k \<le> 1000 \<Longrightarrow> out \<noteq> [] \<Longrightarrow>
         last out = Fin a \<Longrightarrow> successively (step_ok F) out \<Longrightarrow>
         successively (step_ok F) (fst (gen_prices_loop F E k rng (Fin a) out))
         \<and> length (fst (gen_prices_loop F E k rng (Fin a) out)) = length out + k"
proof (induction k arbitrary: j a rng out)
  case 0
  then show ?case by simp
next
  case (Suc k)
  from dr obtain r rng' where g: "gauss E rng (lit F 0.0004) (lit F 0.01) = (Fin r, rng')"
    and r: "- (1 / 2) \<le> r" "r \<le> 1"
    unfolding draws_ok_def by blast
  define q where "q = rnd F (1 + r)"
  define a' where "a' = rnd F (a * q)"
  note gf = growth_factor [OF ok r, folded q_def]
  have j: "j < 1000" using Suc.prems(3) by simp
  note ps = price_step [OF ok Suc.prems(1,2) j gf(2,3), folded a'_def]
  have p': "fmul F (Fin a) (fadd F (lit F 1.0) (Fin r)) = Fin a'"
    by (simp add: gf(1) ps(3))
  have eq: "gen_prices_loop F E (Suc k) rng (Fin a) out
      = gen_prices_loop F E k rng' (Fin a') (out @ [Fin a'])"
    by (simp only: gen_prices_loop.simps g prod.case p')
  have "(1::real) / 2 ^ 1000 \<le> 1 / 2 ^ j"
    using j by (intro divide_left_mono power_increasing) simp_all
  then have lo: "1 / 2 ^ 1000 \<le> a" using Suc.prems(1) by linarith
  have "(2::real) ^ (7 + j) \<le> 2 ^ 1007"
    using j by (intro power_increasing) simp_all
  then have hi: "a \<le> 2 ^ 1007" using Suc.prems(2) by linarith
  have st: "step_ok F (Fin a) (Fin a')"
    unfolding step_ok_def using lo hi gf(2,3) ps(3) by (auto simp: a'_def)
  have ch: "successively (step_ok F) (out @ [Fin a'])"
    using Suc.prems(4,5,6) st by (simp add: successively_append_iff)
  have "successively (step_ok F) (fst (gen_prices_loop F E k rng' (Fin a') (out @ [Fin a'])))
      \<and> length (fst (gen_prices_loop F E k rng' (Fin a') (out @ [Fin a']))) = length (out @ [Fin a']) + k"
    using ps(1,2) Suc.prems(3) ch by (intro Suc.IH [of "Suc j"]) simp_all
  then show ?case by (simp only: eq) simp
qed

lemma gen_prices_chain:
  assumes "rounding_ok F" "draws_ok F E" "n \<le> 1000"
  shows "successively (step_ok F) (fst (gen_prices F E rng n))"
    and "length (fst (gen_prices F E rng n)) = 1 + nat (n - 1)"
proof -
  have h: "lit F 100 = Fin 100"
    using rnd_int [OF assms(1), of 100] by (simp add: lit_def)
  have "successively (step_ok F) (fst (gen_prices_loop F E (nat (n - 1)) rng (Fin 100) [Fin 100]))
      \<and> length (fst (gen_prices_loop F E (nat (n - 1)) rng (Fin 100) [Fin 100]))
          = length [Fin 100 :: pyfloat] + nat (n - 1)"
    using assms(3) by (intro gen_prices_loop_chain [OF assms(1,2), of 0]) simp_all
  then show "successively (step_ok F) (fst (gen_prices F E rng n))"
    and "length (fst (gen_prices F E rng n)) = 1 + nat (n - 1)"
    by (simp_all add: gen_prices_def h)
qed

lemma successively_nth:
  "successively P xs \<Longrightarrow> Suc i < length xs \<Longrightarrow> P (xs ! i) (xs ! Suc i)"
proof (induction xs arbitrary: i)
  case Nil
  then show ?case by simp
next
  case (Cons x xs)
  show ?case
  proof (cases xs)
    case Nil
    with Cons.prems show ?thesis by simp
  next
    case (Cons y ys)
    show ?thesis
    proof (cases i)
      case 0
      with Cons.prems \<open>xs = y # ys\<close> show ?thesis by simp
    next
      case (Suc k)
      from Cons.prems \<open>xs = y # ys\<close> have "successively P xs" by simp
      moreover from Cons.prems Suc have "Suc k < length xs" by simp
      ultimately have "P (xs ! k) (xs ! Suc k)" by (rule Cons.IH)
      with Suc show ?thesis by simp
    qed
  qed
qed

lemma step_ok_return:
  assumes ok: "rounding_ok F" and st: "step_ok F p p'"
  shows "\<exists>r. ebind (fdiv F p' p) (\<lambda>q. Inr (fsub F q (Fin 1))) = Inr r \<and> fin_le (2 ^ 3) r"
proof -
  from st obtain a q where p: "p = Fin a" and a: "1 / 2 ^ 1000 \<le> a" "a \<le> 2 ^ 1007"
    and q: "1 / 2 \<le> q" "q \<le> 2" and p': "p' = fl F (a * q)"
    unfolding step_ok_def by blast
  have apos: "0 < a" using a(1) by (meson less_le_trans zero_less_divide_1_iff zero_less_numeral zero_less_power)
  have "(1 / 2 ^ 1000) * (1 / 2) \<le> a * q" using a(1) q(1) by (intro mult_mono) simp_all
  then have lo: "1 / 2 ^ 1001 \<le> a * q" by simp
  have q0: "0 \<le> q" using q(1) by simp
  have "a * q \<le> 2 ^ 1007 * 2" using a(2) q(2) apos q0 by (intro mult_mono) simp_all
  then have hi: "a * q \<le> 2 ^ 1008" by simp
  define a' where "a' = rnd F (a * q)"
  from rnd_between_pow2 [OF ok lo hi] have fin: "fl F (a * q) = Fin a'"
    by (simp add: a'_def)
  have aq: "0 < a * q" using apos q(1) by simp
  have "(1::real) / 2 ^ 1022 \<le> 1 / 2 ^ 1001"
    by (intro divide_left_mono power_increasing) simp_all
  then have "1 / 2 ^ 1022 \<le> \<bar>a * q\<bar>" using lo by linarith
  then have "\<bar>a' - a * q\<bar> \<le> \<bar>a * q\<bar> / 2 ^ 53"
    using ok unfolding a'_def rounding_ok_def by blast
  then have err: "\<bar>a' - a * q\<bar> \<le> a * q" 
  proof -
    have "\<bar>a * q\<bar> / 2 ^ 53 \<le> \<bar>a * q\<bar> / 1" by (intro divide_left_mono) simp_all
    with \<open>\<bar>a' - a * q\<bar> \<le> \<bar>a * q\<bar> / 2 ^ 53\<close> aq show ?thesis by simp
  qed
  from err have a'0: "0 \<le> a'" by linarith
  from err have a'2: "a' \<le> 2 * (a * q)" by linarith
  have "a * q \<le> a * 2" using q(2) apos by (intro mult_left_mono) simp_all
  with a'2 have "a' \<le> a * 4" by linarith
  then have ratio: "0 \<le> a' / a" "a' / a \<le> 4"
    using a'0 apos by (simp_all add: field_simps)
  then have "\<bar>a' / a\<bar> \<le> 2 ^ 2" by simp
  from fl_fin_le [OF ok _ this] have t: "fin_le (2 ^ 2) (fl F (a' / a))" by simp
  have "fin_le (2 ^ 2) (Fin 1)" by simp
  from fsub_fin_le [OF ok t this] have "fin_le (2 ^ 3) (fsub F (fl F (a' / a)) (Fin 1))"
    by simp
  moreover have "fdiv F p' p = Inr (fl F (a' / a))"
    using apos by (simp add: p p' fin)
  ultimately show ?thesis by (simp add: ebind_def)
qed

lemma returns_bounded:
  assumes ok: "rounding_ok F" and ch: "successively (step_ok F) prices"
  shows "\<exists>rets. returns F prices = Inr rets \<and> length rets = length prices - 1
          \<and> (\<forall>r \<in> set rets. fin_le (2 ^ 3) r)"
proof -
  have "\<exists>r. ebind (fdiv F (prices ! i) (prices ! (i - 1))) (\<lambda>q. Inr (fsub F q (Fin 1))) = Inr r
          \<and> fin_le (2 ^ 3) r"
    if "i \<in> set [1 ..< length prices]" for i
  proof -
    from that have i: "1 \<le> i" "i < length prices" by simp_all
    then obtain k where k: "i = Suc k" "Suc k < length prices"
      by (cases i) simp_all
    from successively_nth [OF ch k(2)] have "step_ok F (prices ! (i - 1)) (prices ! i)"
      by (simp add: k(1))
    then show ?thesis by (rule step_ok_return [OF ok])
  qed
  from emap_total [of "[1 ..< length prices]" _ "fin_le (2 ^ 3)", OF this]
  show ?thesis by (simp add: returns_def)
qed

lemma backtest_returns:
  assumes "rounding_ok F" "draws_ok F E" "n_days pr \<le> 1000"
  shows "\<exists>rets. returns F (fst (gen_prices F E rng (n_days pr))) = Inr rets
          \<and> length rets = nat (n_days pr - 1) \<and> (\<forall>r \<in> set rets. fin_le (2 ^ 3) r)"
  using returns_bounded [OF assms(1) gen_prices_chain(1) [OF assms]]
    gen_prices_chain(2) [OF assms] by simp

lemma backtest_inert_total:
  assumes "rounding_ok F" "draws_ok F E" "n_days pr \<le> 1000"
    and "mode \<noteq> ''baseline''" "mode \<noteq> ''ablation''"
  shows "backtest F E pr rng mode = Inr inert_result"
proof -
  from backtest_returns [OF assms(1-3)] obtain rets where
    rets: "returns F (fst (gen_prices F E rng (n_days pr))) = Inr rets"
      "length rets = nat (n_days pr - 1)" "\<forall>r \<in> set rets. fin_le (2 ^ 3) r" by blast
  have bd: "fin_le (2 ^ 400) x" if "x \<in> set rets" for x
    using rets(3) that by (auto intro: fin_le_mono)
  have "int (length rets) \<le> 2 ^ 53" using rets(2) assms(3) by simp
  from backtest_rets_inert [OF assms(1,4,5) bd this] rets(1)
  show ?thesis by (simp add: backtest_def ebind_def)
qed


section \<open>The sample generator draws within the bounds\<close>

lemma rnd_neg_inv_pow2:
  "rounding_ok F \<Longrightarrow> k \<le> 1074 \<Longrightarrow> rnd F (- (1 / 2 ^ k)) = - (1 / 2 ^ k)"
  by (simp add: rounding_ok_def)

lemma inv_pow2_le_1: "(1::real) / 2 ^ k \<le> 1"
proof -
  have "(1::real) \<le> 2 ^ k" by simp
  then show ?thesis by (simp add: field_simps)
qed

lemma rnd_small:
  assumes "rounding_ok F" "- (1 / 2 ^ j) \<le> x" "x \<le> 1 / 2 ^ k" "j \<le> 1074" "k \<le> 1074"
  shows "- (1 / 2 ^ j) \<le> rnd F x" "rnd F x \<le> 1 / 2 ^ k" "fl F x = Fin (rnd F x)"
proof -
  show "- (1 / 2 ^ j) \<le> rnd F x"
    using rnd_mono [OF assms(1,2)] rnd_neg_inv_pow2 [OF assms(1,4)] by simp
  show "rnd F x \<le> 1 / 2 ^ k"
    using rnd_mono [OF assms(1,3)] rnd_inv_pow2 [OF assms(1,5)] by simp
  from assms(2,3) inv_pow2_le_1 [of j] inv_pow2_le_1 [of k] have "\<bar>x\<bar> \<le> 1" by linarith
  then have "\<bar>x\<bar> \<le> 2 ^ 0" by simp
  from fl_fin [OF assms(1) _ this] show "fl F x = Fin (rnd F x)" by simp
qed

lemma counter_rng_draws_ok:
  assumes ok: "rounding_ok F"
  shows "draws_ok F (counter_rng F)"
  unfolding draws_ok_def
proof
  fix g :: int
  define m where "m = rnd F 0.0004"
  define s where "s = rnd F 0.01"
  define c :: real where "c = of_int (g mod 7 - 3)"
  have "0 \<le> g mod 7" "g mod 7 < 7" by simp_all
  then have "- 3 \<le> g mod 7 - 3" "g mod 7 - 3 \<le> 3" by linarith+
  then have "real_of_int (- 3) \<le> c" "c \<le> real_of_int 3"
    unfolding c_def by (simp_all only: of_int_le_iff)
  then have c: "\<bar>c\<bar> \<le> 3" by simp
  have m: "0 \<le> m" "m \<le> 1 / 2 ^ 6"
    unfolding m_def using rnd_nonneg [OF ok, of "0.0004"] rnd_small(2) [OF ok, of 0 "0.0004" 6]
    by simp_all
  have s: "0 \<le> s" "s \<le> 1 / 2 ^ 6"
    unfolding s_def using rnd_nonneg [OF ok, of "0.01"] rnd_small(2) [OF ok, of 0 "0.01" 6]
    by simp_all
  have "\<bar>s * c\<bar> = s * \<bar>c\<bar>" using s(1) by (simp add: abs_mult)
  also have "\<dots> \<le> (1 / 2 ^ 6) * 3" using s c by (intro mult_mono) simp_all
  also have "\<dots> \<le> 1 / 2 ^ 4" by simp
  finally have sc: "- (1 / 2 ^ 4) \<le> s * c" "s * c \<le> 1 / 2 ^ 4" by linarith+
  define t where "t = rnd F (s * c)"
  note T = rnd_small [OF ok sc, folded t_def]
  have "- (1 / 2 ^ 1) \<le> m + t" "m + t \<le> 1 / 2 ^ 0"
    using m T(1,2) by simp_all
  note A = rnd_small [OF ok this]
  have "gauss (counter_rng F) g (lit F 0.0004) (lit F 0.01)
      = (fadd F (Fin m) (fmul F (Fin s) (Fin c)), g + 1)"
    by (simp add: counter_rng_def lit_def m_def s_def c_def)
  also have "fmul F (Fin s) (Fin c) = Fin t" using T(3) by simp
  also have "fadd F (Fin m) (Fin t) = Fin (rnd F (m + t))" using A(3) by simp
  finally have "gauss (counter_rng F) g (lit F 0.0004) (lit F 0.01) = (Fin (rnd F (m + t)), g + 1)" .
  moreover have "- (1 / 2) \<le> rnd F (m + t)" "rnd F (m + t) \<le> 1" using A(1,2) by simp_all
  ultimately show "\<exists>a g'. gauss (counter_rng F) g (lit F 0.0004) (lit F 0.01) = (Fin a, g')
      \<and> - (1 / 2) \<le> a \<and> a \<le> 1" by blast
qed

section \<open>Conditions that never trade\<close>

lemma inert_on_returns:
  assumes "rounding_ok F" "mode \<noteq> ''baseline''" "mode \<noteq> ''ablation''"
    and "\<forall>r \<in> set rets. fin_le (2 ^ 400) r" "int (length rets) \<le> 2 ^ 53"
  shows "simulate F pr mode rets = Inr (replicate (length rets) flat_day)"
    and "backtest_rets F pr mode rets = Inr inert_result"
proof -
  have bd: "fin_le (2 ^ 400) x" if "x \<in> set rets" for x using assms(4) that by blast
  show "simulate F pr mode rets = Inr (replicate (length rets) flat_day)"
    by (rule simulate_inert [OF assms(1-3) bd])
  show "backtest_rets F pr mode rets = Inr inert_result"
    by (rule backtest_rets_inert [OF assms(1-3) bd assms(5)])
qed

lemma inert_on_draws:
  assumes "rounding_ok F" "mode \<noteq> ''baseline''" "mode \<noteq> ''ablation''"
    and "draws_ok F E" "n_days pr \<le> 1000"
  shows "\<exists>rs. returns F (fst (gen_prices F E rng (n_days pr))) = Inr rs
           \<and> simulate F pr mode rs = Inr (replicate (length rs) flat_day)"
    and "backtest F E pr rng mode = Inr inert_result"
proof -
  from backtest_returns [OF assms(1,4,5)] obtain rs where
    rs: "returns F (fst (gen_prices F E rng (n_days pr))) = Inr rs"
      "\<forall>r \<in> set rs. fin_le (2 ^ 3) r" by blast
  have bd: "fin_le (2 ^ 400) x" if "x \<in> set rs" for x
    using rs(2) that by (auto intro: fin_le_mono)
  have "simulate F pr mode rs = Inr (replicate (length rs) flat_day)"
    by (rule simulate_inert [OF assms(1-3) bd])
  with rs(1) show "\<exists>rs. returns F (fst (gen_prices F E rng (n_days pr))) = Inr rs
           \<and> simulate F pr mode rs = Inr (replicate (length rs) flat_day)" by blast
  show "backtest F E pr rng mode = Inr inert_result"
    by (rule backtest_inert_total [OF assms(1,4,5,2,3)])
qed

section \<open>The negative control\<close>

text \<open>
  C3: the negative control is inert. In mode \<^verbatim>\<open>negative_control\<close> every day of the loop
  is the flat day (position 0, cost 0.0, P&L entry 0.0) and the result is final equity
  1.0, Sharpe ratio 0.0 and trade count 0, and \<^verbatim>\<open>backtest\<close> returns it: for every return
  series of finite floats up to \<open>2^400\<close> in magnitude, and for every generator state
  (hence every seed) when the draws of \<^verbatim>\<open>gauss(0.0004, 0.01)\<close> lie between -0.5 and 1
  and \<^verbatim>\<open>n_days\<close> is at most 1000 (it is 252). The bounds are needed because the z-score
  of the day is computed in every mode, before the mode is looked at, and its squares
  and quotients raise on an overflow or a zero.
\<close>

theorem negative_control_inert:
  assumes "rounding_ok F"
  shows "((\<forall>r \<in> set rets. fin_le (2 ^ 400) r) \<and> int (length rets) \<le> 2 ^ 53 \<longrightarrow>
            simulate F pr ''negative_control'' rets = Inr (replicate (length rets) flat_day) \<and>
            backtest_rets F pr ''negative_control'' rets = Inr inert_result) \<and>
         (draws_ok F E \<and> n_days pr \<le> 1000 \<longrightarrow>
            (\<exists>rs. returns F (fst (gen_prices F E rng (n_days pr))) = Inr rs \<and>
                   simulate F pr ''negative_control'' rs = Inr (replicate (length rs) flat_day)) \<and>
            backtest F E pr rng ''negative_control'' = Inr inert_result)"
proof -
  have m: "''negative_control'' \<noteq> ''baseline''" "''negative_control'' \<noteq> ''ablation''"
    by simp_all
  show ?thesis
    using inert_on_returns [OF assms m, of rets pr] inert_on_draws [OF assms m, of E pr rng]
    by blast
qed

theorem negative_control_inert_witness:
  "rounding_ok grid_format \<and>
   fin_le (2 ^ 400) (Fin 1) \<and> fin_le (2 ^ 400) (Fin (- 3)) \<and>
   simulate grid_format (Prereg_default grid_format) ''negative_control'' [Fin 1, Fin (- 3)]
     = Inr [flat_day, flat_day] \<and>
   backtest_rets grid_format (Prereg_default grid_format) ''negative_control'' [Fin 1, Fin (- 3)]
     = Inr inert_result \<and>
   draws_ok grid_format (counter_rng grid_format) \<and>
   n_days (Prereg_default grid_format) \<le> 1000 \<and>
   backtest grid_format (counter_rng grid_format) (Prereg_default grid_format)
     (Random (counter_rng grid_format) 126) ''negative_control'' = Inr inert_result"
proof -
  have d: "draws_ok grid_format (counter_rng grid_format)"
    by (rule counter_rng_draws_ok [OF grid_rounding_ok])
  have n: "n_days (Prereg_default grid_format) \<le> 1000"
    by (simp add: Prereg_default_def)
  have b: "fin_le (2 ^ 400) (Fin 1)" "fin_le (2 ^ 400) (Fin (- 3))"
    by simp_all
  have r: "(\<forall>r \<in> set [Fin 1, Fin (- 3)]. fin_le (2 ^ 400) r)
      \<and> int (length [Fin 1 :: pyfloat, Fin (- 3)]) \<le> 2 ^ 53"
    by simp
  have e: "replicate (length [Fin 1 :: pyfloat, Fin (- 3)]) flat_day = [flat_day, flat_day]"
    by (simp add: numeral_2_eq_2)
  from negative_control_inert [OF grid_rounding_ok, of "[Fin 1, Fin (- 3)]"
      "Prereg_default grid_format" "counter_rng grid_format"
      "Random (counter_rng grid_format) 126"] r d n
  have "simulate grid_format (Prereg_default grid_format) ''negative_control'' [Fin 1, Fin (- 3)]
       = Inr (replicate (length [Fin 1 :: pyfloat, Fin (- 3)]) flat_day)"
    and "backtest_rets grid_format (Prereg_default grid_format) ''negative_control''
       [Fin 1, Fin (- 3)] = Inr inert_result"
    and "backtest grid_format (counter_rng grid_format) (Prereg_default grid_format)
       (Random (counter_rng grid_format) 126) ''negative_control'' = Inr inert_result"
    by blast+
  with grid_rounding_ok b d n e show ?thesis by (simp only: simp_thms)
qed

section \<open>Unknown modes\<close>

text \<open>
  C10: a mode string outside \<^verbatim>\<open>baseline\<close>, \<^verbatim>\<open>ablation\<close> and \<^verbatim>\<open>negative_control\<close>
  matches no branch of the position update, so \<^verbatim>\<open>new_pos = pos = 0\<close> on every day.
  Under the bounds of C3, \<^verbatim>\<open>backtest\<close> raises nothing, every day is the flat day (so
  every P&L entry is 0.0), and the result is final equity 1.0, Sharpe ratio 0.0 and
  trade count 0, the very result of the negative control.
\<close>

theorem unknown_mode_inert:
  assumes "rounding_ok F" and "mode \<notin> {''baseline'', ''ablation'', ''negative_control''}"
  shows "((\<forall>r \<in> set rets. fin_le (2 ^ 400) r) \<and> int (length rets) \<le> 2 ^ 53 \<longrightarrow>
            simulate F pr mode rets = Inr (replicate (length rets) flat_day) \<and>
            map day_pnl (replicate (length rets) flat_day) = replicate (length rets) (Fin 0) \<and>
            backtest_rets F pr mode rets = Inr inert_result \<and>
            backtest_rets F pr mode rets = backtest_rets F pr ''negative_control'' rets) \<and>
         (draws_ok F E \<and> n_days pr \<le> 1000 \<longrightarrow>
            (\<exists>rs. returns F (fst (gen_prices F E rng (n_days pr))) = Inr rs \<and>
                   simulate F pr mode rs = Inr (replicate (length rs) flat_day)) \<and>
            backtest F E pr rng mode = Inr inert_result \<and>
            backtest F E pr rng mode = backtest F E pr rng ''negative_control'')"
proof -
  have m: "mode \<noteq> ''baseline''" "mode \<noteq> ''ablation''" using assms(2) by simp_all
  have c: "''negative_control'' \<noteq> ''baseline''" "''negative_control'' \<noteq> ''ablation''"
    by simp_all
  have p: "map day_pnl (replicate (length rets) flat_day) = replicate (length rets) (Fin 0)"
    by (simp add: flat_day_def)
  have A: "simulate F pr mode rets = Inr (replicate (length rets) flat_day) \<and>
      map day_pnl (replicate (length rets) flat_day) = replicate (length rets) (Fin 0) \<and>
      backtest_rets F pr mode rets = Inr inert_result \<and>
      backtest_rets F pr mode rets = backtest_rets F pr ''negative_control'' rets"
    if "(\<forall>r \<in> set rets. fin_le (2 ^ 400) r) \<and> int (length rets) \<le> 2 ^ 53"
  proof -
    from that have b: "\<forall>r \<in> set rets. fin_le (2 ^ 400) r" "int (length rets) \<le> 2 ^ 53"
      by simp_all
    note u = inert_on_returns [OF assms(1) m b, of pr]
    note v = inert_on_returns(2) [OF assms(1) c b, of pr]
    show ?thesis by (simp only: u v p simp_thms)
  qed
  have B: "(\<exists>rs. returns F (fst (gen_prices F E rng (n_days pr))) = Inr rs \<and>
        simulate F pr mode rs = Inr (replicate (length rs) flat_day)) \<and>
      backtest F E pr rng mode = Inr inert_result \<and>
      backtest F E pr rng mode = backtest F E pr rng ''negative_control''"
    if "draws_ok F E \<and> n_days pr \<le> 1000"
  proof -
    from that have d: "draws_ok F E" "n_days pr \<le> 1000" by simp_all
    note u = inert_on_draws [OF assms(1) m d, of rng]
    note v = inert_on_draws(2) [OF assms(1) c d, of rng]
    from u(1) show ?thesis by (simp only: u(2) v simp_thms)
  qed
  from A B show ?thesis by blast
qed

theorem unknown_mode_inert_witness:
  "rounding_ok grid_format \<and>
   ''momentum'' \<notin> {''baseline'', ''ablation'', ''negative_control''} \<and>
   fin_le (2 ^ 400) (Fin 1) \<and> fin_le (2 ^ 400) (Fin (- 3)) \<and>
   simulate grid_format (Prereg_default grid_format) ''momentum'' [Fin 1, Fin (- 3)]
     = Inr [flat_day, flat_day] \<and>
   backtest_rets grid_format (Prereg_default grid_format) ''momentum'' [Fin 1, Fin (- 3)]
     = Inr inert_result \<and>
   draws_ok grid_format (counter_rng grid_format) \<and>
   n_days (Prereg_default grid_format) \<le> 1000 \<and>
   backtest grid_format (counter_rng grid_format) (Prereg_default grid_format)
     (Random (counter_rng grid_format) 7) ''momentum'' = Inr inert_result"
proof -
  have d: "draws_ok grid_format (counter_rng grid_format)"
    by (rule counter_rng_draws_ok [OF grid_rounding_ok])
  have n: "n_days (Prereg_default grid_format) \<le> 1000"
    by (simp add: Prereg_default_def)
  have b: "fin_le (2 ^ 400) (Fin 1)" "fin_le (2 ^ 400) (Fin (- 3))"
    by simp_all
  have u: "''momentum'' \<notin> {''baseline'', ''ablation'', ''negative_control''}"
    by simp
  have r: "(\<forall>r \<in> set [Fin 1, Fin (- 3)]. fin_le (2 ^ 400) r)
      \<and> int (length [Fin 1 :: pyfloat, Fin (- 3)]) \<le> 2 ^ 53"
    by simp
  have e: "replicate (length [Fin 1 :: pyfloat, Fin (- 3)]) flat_day = [flat_day, flat_day]"
    by (simp add: numeral_2_eq_2)
  from unknown_mode_inert [OF grid_rounding_ok u, of "[Fin 1, Fin (- 3)]"
      "Prereg_default grid_format" "counter_rng grid_format"
      "Random (counter_rng grid_format) 7"] r d n
  have "simulate grid_format (Prereg_default grid_format) ''momentum'' [Fin 1, Fin (- 3)]
       = Inr (replicate (length [Fin 1 :: pyfloat, Fin (- 3)]) flat_day)"
    and "backtest_rets grid_format (Prereg_default grid_format) ''momentum''
       [Fin 1, Fin (- 3)] = Inr inert_result"
    and "backtest grid_format (counter_rng grid_format) (Prereg_default grid_format)
       (Random (counter_rng grid_format) 7) ''momentum'' = Inr inert_result"
    by blast+
  with grid_rounding_ok b d n e u show ?thesis by (simp only: simp_thms)
qed


end
